theory Spec2Isabelle
  imports Main "HOL-Library.AList"
begin

section \<open>Outline tree built from a flat list of headings\<close>

text \<open>
  The flat table of contents holds one record per heading, as \<^verbatim>\<open>parseTree\<close> pushes them:
  \<^verbatim>\<open>{ content, anchor, level }\<close>. The builder copies \<^verbatim>\<open>content\<close> and \<^verbatim>\<open>anchor\<close> without
  looking at them, so the content is a type parameter (a string in \<^verbatim>\<open>parseTree\<close>); an
  absent property (\<^verbatim>\<open>undefined\<close>) of the anchor is \<open>None\<close>. Levels are JavaScript numbers,
  modelled as integers.
\<close>

record 'c heading =
  content :: 'c
  anchor :: "string option"
  level :: int

text \<open>A node of the outline: \<^verbatim>\<open>{ content, anchor, nodes: [] }\<close>.\<close>

datatype 'c node = Node (ncontent: 'c) (nanchor: "string option") (nodes: "'c node list")

text \<open>
  The exceptions the code can raise: reading or writing a property of \<^verbatim>\<open>undefined\<close>
  is a \<^verbatim>\<open>TypeError\<close>.
\<close>

datatype error = TypeError

text \<open>
  \<^verbatim>\<open>requestedLevelTree[requestedLevelTree.length - 1].nodes = nextLevelTree\<close>:
  on an empty array the element read is \<^verbatim>\<open>undefined\<close> and the assignment throws.
\<close>

definition set_last_nodes :: "'c node list \<Rightarrow> 'c node list \<Rightarrow> error + 'c node list" where
  "set_last_nodes requestedLevelTree nextLevelTree =
     (if requestedLevelTree = [] then Inl TypeError
      else Inr (butlast requestedLevelTree @
                [Node (ncontent (last requestedLevelTree)) (nanchor (last requestedLevelTree))
                   nextLevelTree]))"

text \<open>
  The \<^verbatim>\<open>while\<close> loop of \<^verbatim>\<open>buildTreeFlatArray\<close>, with the tree built so far and the cursor
  as arguments. The recursive call of the source (with the current node's level and a
  fresh context starting at the cursor) is the loop started on an empty tree;
  \<^verbatim>\<open>requestedLevel || 1\<close> turns a level 0 into 1 at its entry. The value is \<open>None\<close> when
  the loop runs forever, \<open>Some (Inl e)\<close> when it throws, and \<open>Some (Inr (tree, index))\<close>
  when it returns \<open>tree\<close> and leaves \<open>index\<close> in the context's \<^verbatim>\<open>startFrom\<close>.
\<close>

definition or_one :: "int \<Rightarrow> int" where
  "or_one requestedLevel = (if requestedLevel = 0 then 1 else requestedLevel)"

partial_function (option) build_loop ::
  "'c heading list \<Rightarrow> int \<Rightarrow> 'c node list \<Rightarrow> nat \<Rightarrow> (error + 'c node list \<times> nat) option"
where
  "build_loop array requestedLevel requestedLevelTree index =
     (if index < length array then
        let currentNode = array ! index in
        if level currentNode < requestedLevel then
          Some (Inr (requestedLevelTree, index))
        else if level currentNode = requestedLevel then
          build_loop array requestedLevel
            (requestedLevelTree @ [Node (content currentNode) (anchor currentNode) []])
            (index + 1)
        else
          Option.bind (build_loop array (or_one (level currentNode)) [] index)
            (\<lambda>r. case r of
                Inl e \<Rightarrow> Some (Inl e)
              | Inr (nextLevelTree, startFrom) \<Rightarrow>
                  (case set_last_nodes requestedLevelTree nextLevelTree of
                     Inl e \<Rightarrow> Some (Inl e)
                   | Inr tree' \<Rightarrow> build_loop array requestedLevel tree' startFrom))
      else Some (Inr (requestedLevelTree, index)))"

text \<open>
  \<^verbatim>\<open>buildTreeFlatArray(array, requestedLevel, requestedLevelContext)\<close>. An omitted argument
  is \<open>None\<close>: \<^verbatim>\<open>requestedLevel || 1\<close> and \<^verbatim>\<open>requestedLevelContext.startFrom || 0\<close>. The
  context is given by its \<^verbatim>\<open>startFrom\<close>, an index into the array (a natural number), and
  the \<^verbatim>\<open>startFrom\<close> it holds at the end is returned with the tree.
\<close>

definition buildTreeFlatArray ::
  "'c heading list \<Rightarrow> int option \<Rightarrow> nat option \<Rightarrow> (error + 'c node list \<times> nat) option" where
  "buildTreeFlatArray array requestedLevel startFrom =
     build_loop array (or_one (case requestedLevel of None \<Rightarrow> 0 | Some l \<Rightarrow> l)) []
       (case startFrom of None \<Rightarrow> 0 | Some i \<Rightarrow> i)"

declare build_loop.simps [code]

text \<open>
  Depth-first (preorder) flattening of a forest: each node's content and anchor, the
  node before its children, in order.
\<close>

fun flatten :: "'c node \<Rightarrow> ('c \<times> string option) list" where
  "flatten (Node c a ns) = (c, a) # concat (map flatten ns)"

definition flatten_forest :: "'c node list \<Rightarrow> ('c \<times> string option) list" where
  "flatten_forest ns = concat (map flatten ns)"

definition entry :: "'c heading \<Rightarrow> 'c \<times> string option" where
  "entry h = (content h, anchor h)"

text \<open>
  A well-formed outline, read off a list of levels with the stack of the levels that are
  open (the innermost first): a heading either returns to a level that is open, which
  closes the deeper ones, or goes deeper than the innermost open level. It never takes a
  level between two open ones or above the outermost: no deeper heading precedes its
  ancestor level. The first heading is at the start level.
\<close>

fun well_formed_from :: "int list \<Rightarrow> int list \<Rightarrow> bool" where
  "well_formed_from opened [] = True"
| "well_formed_from opened (l # ls) =
     (if l \<in> set opened then well_formed_from (dropWhile (\<lambda>s. s \<noteq> l) opened) ls
      else opened \<noteq> [] \<and> hd opened < l \<and> well_formed_from (l # opened) ls)"

definition well_formed :: "int \<Rightarrow> 'c heading list \<Rightarrow> bool" where
  "well_formed start array =
     (case map level array of [] \<Rightarrow> True | l # ls \<Rightarrow> l = start \<and> well_formed_from [start] ls)"

text \<open>
  Following a heading through the builder. \<open>relabel f\<close> changes the content of a heading
  and keeps the rest; \<open>indexed array\<close> is the array with the content of every heading
  replaced by its position. A forest built from \<open>indexed array\<close> therefore names, at each
  node, the position of the heading the node was made from.
\<close>

definition relabel :: "('a \<Rightarrow> 'b) \<Rightarrow> 'a heading \<Rightarrow> 'b heading" where
  "relabel f h = \<lparr>content = f (content h), anchor = anchor h, level = level h\<rparr>"

definition indexed :: "'c heading list \<Rightarrow> nat heading list" where
  "indexed array =
     map (\<lambda>i. \<lparr>content = i, anchor = anchor (array ! i), level = level (array ! i)\<rparr>)
       [0..<length array]"

text \<open>
  \<open>deeper_between array i j\<close>: position \<open>j\<close> is after position \<open>i\<close> and every heading
  after \<open>i\<close> up to and including \<open>j\<close> is strictly deeper than the heading at \<open>i\<close>.
  \<open>children_deeper\<close> asks this of every node of a tree and each of its children.
\<close>

definition deeper_between :: "'c heading list \<Rightarrow> nat \<Rightarrow> nat \<Rightarrow> bool" where
  "deeper_between array i j =
     (i < j \<and> j < length array \<and>
      list_all (\<lambda>k. level (array ! i) < level (array ! k)) [Suc i..<Suc j])"

fun children_deeper :: "'c heading list \<Rightarrow> nat node \<Rightarrow> bool" where
  "children_deeper array (Node i a ns) =
     (list_all (\<lambda>c. deeper_between array i (ncontent c)) ns \<and>
      list_all (children_deeper array) ns)"

text \<open>
  \<open>located_in array\<close>: every node of the tree names a position of the array and carries
  the anchor of the heading there.
\<close>

fun located_in :: "'c heading list \<Rightarrow> nat node \<Rightarrow> bool" where
  "located_in array (Node i a ns) =
     (i < length array \<and> a = anchor (array ! i) \<and> list_all (located_in array) ns)"

text \<open>
  The invariant of the loop on an indexed array, for the tree built so far at level \<open>L\<close>
  from the positions \<open>lo\<close> up to the cursor.
\<close>

definition builder_inv :: "nat heading list \<Rightarrow> nat \<Rightarrow> int \<Rightarrow> nat node list \<Rightarrow> nat \<Rightarrow> bool" where
  "builder_inv array lo L tree index =
     (list_all (children_deeper array) tree \<and> list_all (located_in array) tree \<and>
      (\<forall>n \<in> set tree. level (array ! ncontent n) = L \<and> lo \<le> ncontent n \<and>
          ncontent n < index \<and> ncontent n < length array) \<and>
      (\<forall>k. lo \<le> k \<and> k < index \<longrightarrow> L \<le> level (array ! k)) \<and>
      (tree \<noteq> [] \<longrightarrow> (\<forall>k. ncontent (last tree) < k \<and> k < index \<longrightarrow> L < level (array ! k))) \<and>
      lo \<le> index)"

section \<open>The table of contents of a document\<close>

text \<open>
  The tokens of markdown-it, as far as \<^verbatim>\<open>parseTree\<close> reads them: \<^verbatim>\<open>type\<close>, \<^verbatim>\<open>tag\<close>,
  \<^verbatim>\<open>content\<close> and \<^verbatim>\<open>children\<close> (\<^verbatim>\<open>null\<close> on a token that is not inline, \<open>None\<close> here),
  and of a child its \<^verbatim>\<open>type\<close> and \<^verbatim>\<open>content\<close>.
\<close>

record inline_token =
  itype :: string
  icontent :: string

record token =
  ttype :: string
  ttag :: string
  tcontent :: string
  tchildren :: "inline_token list option"

text \<open>
  \<^verbatim>\<open>+headingclose.tag.substr(1, 1)\<close>: the number written by the second character of the
  tag. markdown-it gives a \<^verbatim>\<open>heading_close\<close> token one of the tags \<^verbatim>\<open>h1\<close> to \<^verbatim>\<open>h6\<close>; the
  empty string converts to 0. A character that is no digit converts to \<^verbatim>\<open>NaN\<close>, which is
  outside this model of levels: \<open>heading_tags\<close> states that no token has such a tag.
\<close>

definition digits :: string where
  "digits = ''0123456789''"

definition is_digit :: "char \<Rightarrow> bool" where
  "is_digit c = (c \<in> set digits)"

definition digit_value :: "char \<Rightarrow> int" where
  "digit_value c = int (of_char c) - 48"

definition heading_level :: "string \<Rightarrow> int" where
  "heading_level tag = (case take 1 (drop 1 tag) of [] \<Rightarrow> 0 | c # _ \<Rightarrow> digit_value c)"

definition heading_tags :: "token list \<Rightarrow> bool" where
  "heading_tags tokens =
     list_all (\<lambda>t. ttype t \<noteq> ''heading_close'' \<or> list_all is_digit (take 1 (drop 1 (ttag t))))
       tokens"

text \<open>
  The record pushed for a heading: \<open>heading\<close> is the inline token before the closing
  token \<open>headingclose\<close>. The plain-text and slug functions (\<^verbatim>\<open>remove-markdown\<close> and
  lodash's \<^verbatim>\<open>kebabCase\<close>) are parameters. Reading \<^verbatim>\<open>children[1].content\<close> of a single
  child, or calling \<^verbatim>\<open>reduce\<close> on \<^verbatim>\<open>null\<close>, throws.
\<close>

definition heading_record ::
  "(string \<Rightarrow> string) \<Rightarrow> (string \<Rightarrow> string) \<Rightarrow> token \<Rightarrow> token \<Rightarrow> error + string heading" where
  "heading_record mdRemove kebabCase heading headingclose =
     (case tchildren heading of
        Some (c0 # cs) \<Rightarrow>
          if itype c0 = ''link_open'' then
            (case cs of
               [] \<Rightarrow> Inl TypeError
             | c1 # _ \<Rightarrow>
                 Inr \<lparr>content = mdRemove (icontent c1),
                      anchor = Some (kebabCase (mdRemove (icontent c1))),
                      level = heading_level (ttag headingclose)\<rparr>)
          else
            Inr \<lparr>content = mdRemove (tcontent heading),
                 anchor = Some (kebabCase (foldl (\<lambda>acc t. acc @ icontent t) [] (c0 # cs))),
                 level = heading_level (ttag headingclose)\<rparr>
      | Some [] \<Rightarrow>
          Inr \<lparr>content = mdRemove (tcontent heading),
               anchor = Some (kebabCase []),
               level = heading_level (ttag headingclose)\<rparr>
      | None \<Rightarrow> Inl TypeError)"

text \<open>
  The loop over the tokens, with the token before the current one (\<^verbatim>\<open>tokens[i - 1]\<close>,
  \<^verbatim>\<open>undefined\<close> before the first). It gives the flat array, or the exception thrown at
  the first token that throws.
\<close>

fun tocArray ::
  "(string \<Rightarrow> string) \<Rightarrow> (string \<Rightarrow> string) \<Rightarrow> token option \<Rightarrow> token list \<Rightarrow>
   error + string heading list" where
  "tocArray mdRemove kebabCase prev [] = Inr []"
| "tocArray mdRemove kebabCase prev (t # ts) =
     (if ttype t \<noteq> ''heading_close'' then tocArray mdRemove kebabCase (Some t) ts
      else case prev of
          None \<Rightarrow> Inl TypeError
        | Some heading \<Rightarrow>
            if ttype heading = ''inline'' then
              (case heading_record mdRemove kebabCase heading t of
                 Inl e \<Rightarrow> Inl e
               | Inr h \<Rightarrow>
                   (case tocArray mdRemove kebabCase (Some t) ts of
                      Inl e \<Rightarrow> Inl e
                    | Inr hs \<Rightarrow> Inr (h # hs)))
            else tocArray mdRemove kebabCase (Some t) ts)"

text \<open>\<^verbatim>\<open>_.remove(tocArray, (n) => { return n.level > 3 })\<close> leaves the other records, in order.\<close>

definition retained :: "'c heading list \<Rightarrow> 'c heading list" where
  "retained toc = filter (\<lambda>n. \<not> 3 < level n) toc"

text \<open>
  \<^verbatim>\<open>parseTree\<close>, from the tokens that \<^verbatim>\<open>md().parse\<close> returns for the content without its
  comments: the flat array, without the records of a level above 3, built into a tree
  with the default level and context. Only the tree is returned.
\<close>

definition parseTree ::
  "(string \<Rightarrow> string) \<Rightarrow> (string \<Rightarrow> string) \<Rightarrow> token list \<Rightarrow> (error + string node list) option" where
  "parseTree mdRemove kebabCase tokens =
     (case tocArray mdRemove kebabCase None tokens of
        Inl e \<Rightarrow> Some (Inl e)
      | Inr toc \<Rightarrow>
          (case buildTreeFlatArray (retained toc) None None of
             None \<Rightarrow> None
           | Some (Inl e) \<Rightarrow> Some (Inl e)
           | Some (Inr (tree, startFrom)) \<Rightarrow> Some (Inr tree)))"

section \<open>Regular expressions\<close>

text \<open>
  The patterns of the file, as syntax trees, and the backtracking matcher of JavaScript
  for them. Strings are lists of characters; case folding is modelled on the ASCII
  letters. A character class is the list of its characters (a range is written out),
  negated or not; \<^verbatim>\<open>.\<close> is the class of everything but the line terminators. \<open>Star\<close> and \<open>Opt\<close> are the greedy quantifiers
  \<^verbatim>\<open>*\<close> and \<^verbatim>\<open>?\<close>; \<^verbatim>\<open>+\<close> is one occurrence followed by \<^verbatim>\<open>*\<close>. \<open>Group n\<close> is the \<open>n\<close>-th
  capturing group; a group that captures nothing is written as its body.
\<close>

datatype regex =
    Lit char
  | Class bool "char list"
  | Empty
  | Seq regex regex
  | Alt regex regex
  | Opt regex
  | Star regex
  | Group nat regex
  | EndAnchor

definition Plus :: "regex \<Rightarrow> regex" where
  "Plus r = Seq r (Star r)"

fun seqs :: "regex list \<Rightarrow> regex" where
  "seqs [] = Empty"
| "seqs [r] = r"
| "seqs (r # rs) = Seq r (seqs rs)"

fun alts :: "regex list \<Rightarrow> regex" where
  "alts [] = Empty"
| "alts [r] = r"
| "alts (r # rs) = Alt r (alts rs)"

definition lit :: "string \<Rightarrow> regex" where
  "lit s = seqs (map Lit s)"

definition lower_letters :: string where
  "lower_letters = ''abcdefghijklmnopqrstuvwxyz''"

definition upper_letters :: string where
  "upper_letters = ''ABCDEFGHIJKLMNOPQRSTUVWXYZ''"

definition dot :: regex where
  "dot = Class True [CHR 0x0A, CHR 0x0D]"

definition word :: regex where
  "word = Class False (lower_letters @ upper_letters @ digits @ ''_'')"

definition digit :: regex where
  "digit = Class False digits"

text \<open>A regular expression object: the pattern and the flags \<^verbatim>\<open>i\<close> and \<^verbatim>\<open>g\<close>.\<close>

record regexp =
  pattern :: regex
  ignoreCase :: bool
  global :: bool

definition to_upper :: "char \<Rightarrow> char" where
  "to_upper c = (case map_of (zip lower_letters upper_letters) c of None \<Rightarrow> c | Some u \<Rightarrow> u)"

definition to_lower :: "char \<Rightarrow> char" where
  "to_lower c = (case map_of (zip upper_letters lower_letters) c of None \<Rightarrow> c | Some l \<Rightarrow> l)"

text \<open>
  With the flag \<^verbatim>\<open>i\<close> two characters match when their upper-case forms are equal, and
  a class holds a character when it holds one with the same upper-case form.
\<close>

definition same_char :: "bool \<Rightarrow> char \<Rightarrow> char \<Rightarrow> bool" where
  "same_char ic a b = (if ic then to_upper a = to_upper b else a = b)"

definition in_class :: "bool \<Rightarrow> bool \<Rightarrow> char list \<Rightarrow> char \<Rightarrow> bool" where
  "in_class ic negated cs c =
     (negated \<noteq> (if ic then list_ex (\<lambda>a. to_upper a = to_upper c) cs else c \<in> set cs))"

text \<open>The capturing groups inside a pattern: they are reset when a quantifier starts an iteration.\<close>

fun groups_of :: "regex \<Rightarrow> nat list" where
  "groups_of (Seq a b) = groups_of a @ groups_of b"
| "groups_of (Alt a b) = groups_of a @ groups_of b"
| "groups_of (Opt a) = groups_of a"
| "groups_of (Star a) = groups_of a"
| "groups_of (Group n a) = n # groups_of a"
| "groups_of r = []"

type_synonym captures = "nat \<rightharpoonup> string"

definition reset :: "regex \<Rightarrow> captures \<Rightarrow> captures" where
  "reset r caps = (\<lambda>n. if n \<in> set (groups_of r) then None else caps n)"

text \<open>
  The matcher, with a continuation as in the specification of the language:
  \<open>matcher ic r s caps k\<close> matches the pattern at the start of \<open>s\<close> and calls \<open>k\<close> on the
  rest of the string and the captures; when \<open>k\<close> fails (\<open>None\<close>) it backtracks to the
  next way of matching. A quantifier tries one more iteration before it tries to stop,
  and rejects an iteration that consumes nothing.
\<close>

fun matcher ::
  "bool \<Rightarrow> regex \<Rightarrow> string \<Rightarrow> captures \<Rightarrow> (string \<Rightarrow> captures \<Rightarrow> 'a option) \<Rightarrow> 'a option"
where
  "matcher ic (Lit c) s caps k =
     (case s of [] \<Rightarrow> None | x # xs \<Rightarrow> if same_char ic c x then k xs caps else None)"
| "matcher ic (Class negated cs) s caps k =
     (case s of [] \<Rightarrow> None | x # xs \<Rightarrow> if in_class ic negated cs x then k xs caps else None)"
| "matcher ic Empty s caps k = k s caps"
| "matcher ic (Seq a b) s caps k = matcher ic a s caps (\<lambda>s' caps'. matcher ic b s' caps' k)"
| "matcher ic (Alt a b) s caps k =
     (case matcher ic a s caps k of Some r \<Rightarrow> Some r | None \<Rightarrow> matcher ic b s caps k)"
| "matcher ic (Opt a) s caps k =
     (case matcher ic a s (reset a caps)
             (\<lambda>s' caps'. if length s' < length s then k s' caps' else None) of
        Some r \<Rightarrow> Some r
      | None \<Rightarrow> k s caps)"
| "matcher ic (Star a) s caps k =
     (case matcher ic a s (reset a caps)
             (\<lambda>s' caps'. if length s' < length s then matcher ic (Star a) s' caps' k else None) of
        Some r \<Rightarrow> Some r
      | None \<Rightarrow> k s caps)"
| "matcher ic (Group n a) s caps k =
     matcher ic a s caps (\<lambda>s' caps'. k s' (caps'(n \<mapsto> take (length s - length s') s)))"
| "matcher ic EndAnchor s caps k = (if s = [] then k s caps else None)"

declare matcher.simps(7) [simp del]

text \<open>
  The leftmost match in \<open>s\<close>, which starts at index \<open>i\<close> of the whole string: the start
  index, the length of the match and the captures.
\<close>

fun first_match :: "bool \<Rightarrow> regex \<Rightarrow> string \<Rightarrow> nat \<Rightarrow> (nat \<times> nat \<times> captures) option" where
  "first_match ic r s i =
     (case matcher ic r s Map.empty (\<lambda>s' caps'. Some (s', caps')) of
        Some (rest, caps) \<Rightarrow> Some (i, length s - length rest, caps)
      | None \<Rightarrow> (case s of [] \<Rightarrow> None | _ # s' \<Rightarrow> first_match ic r s' (Suc i)))"

declare first_match.simps [simp del]

text \<open>
  \<^verbatim>\<open>RegExp.prototype.exec\<close>, from the index \<open>lastIndex\<close>: \<open>None\<close> is \<^verbatim>\<open>null\<close>; otherwise the
  array of the match and of the captures (\<open>None\<close> for \<^verbatim>\<open>undefined\<close>), and the index after
  the match.
\<close>

definition regexp_exec ::
  "regexp \<Rightarrow> string \<Rightarrow> nat \<Rightarrow> (string option list \<times> nat) option" where
  "regexp_exec re str lastIndex =
     (if length str < lastIndex then None
      else case first_match (ignoreCase re) (pattern re) (drop lastIndex str) lastIndex of
          None \<Rightarrow> None
        | Some (i, n, caps) \<Rightarrow>
            Some (Some (take n (drop i str)) #
                    map caps [1..<Suc (length (groups_of (pattern re)))],
                  i + n))"

text \<open>\<^verbatim>\<open>String.prototype.match\<close> with a regular expression without the flag \<^verbatim>\<open>g\<close>.\<close>

definition string_match :: "string \<Rightarrow> regexp \<Rightarrow> string option list option" where
  "string_match str re = map_option fst (regexp_exec re str 0)"

text \<open>
  \<^verbatim>\<open>String.prototype.replace\<close> with a string as the pattern: the first occurrence is
  replaced, and in the replacement \<^verbatim>\<open>$$\<close>, \<^verbatim>\<open>$&\<close>, \<^verbatim>\<open>$`\<close> and \<^verbatim>\<open>$'\<close> stand for a dollar sign,
  the occurrence, the text before it and the text after it.
\<close>

fun split_first :: "string \<Rightarrow> string \<Rightarrow> string \<Rightarrow> (string \<times> string) option" where
  "split_first pat preceding s =
     (if take (length pat) s = pat then Some (preceding, drop (length pat) s)
      else case s of [] \<Rightarrow> None | c # s' \<Rightarrow> split_first pat (preceding @ [c]) s')"

fun substitution :: "string \<Rightarrow> string \<Rightarrow> string \<Rightarrow> string \<Rightarrow> string" where
  "substitution matched preceding following (c # d # r) =
     (if c = CHR ''$'' \<and> d = CHR ''$'' then CHR ''$'' # substitution matched preceding following r
      else if c = CHR ''$'' \<and> d = CHR ''&'' then matched @ substitution matched preceding following r
      else if c = CHR ''$'' \<and> d = CHR 0x60 then preceding @ substitution matched preceding following r
      else if c = CHR ''$'' \<and> d = CHR 0x27 then following @ substitution matched preceding following r
      else c # substitution matched preceding following (d # r))"
| "substitution matched preceding following r = r"

definition string_replace :: "string \<Rightarrow> string \<Rightarrow> string \<Rightarrow> string" where
  "string_replace str pat replacement =
     (case split_first pat [] str of
        None \<Rightarrow> str
      | Some (preceding, following) \<Rightarrow> preceding @ substitution pat preceding following replacement @ following)"

text \<open>\<^verbatim>\<open>undefined\<close> converted to a string.\<close>

definition to_string :: "string option \<Rightarrow> string" where
  "to_string v = (case v of None \<Rightarrow> ''undefined'' | Some s \<Rightarrow> s)"

section \<open>Meta data\<close>

text \<open>
  \<^verbatim>\<open>_.toLower\<close> and \<^verbatim>\<open>_.trim\<close>: lower case, and without the white space at both ends
  (space, tab, line feed, vertical tab, form feed, carriage return, no-break space).
\<close>

definition toLower :: "string \<Rightarrow> string" where
  "toLower s = map to_lower s"

definition is_space :: "char \<Rightarrow> bool" where
  "is_space c = (c \<in> set [CHR 0x09, CHR 0x0A, CHR 0x0B, CHR 0x0C, CHR 0x0D, CHR 0x20, CHR 0xA0])"

definition trim :: "string \<Rightarrow> string" where
  "trim s = rev (dropWhile is_space (rev (dropWhile is_space s)))"

text \<open>\<^verbatim>\<open>new RegExp('<!-- ?([a-zA-Z]+):(.*)-->', 'g')\<close>\<close>

definition commentMeta :: regexp where
  "commentMeta =
     \<lparr>pattern = seqs [lit ''<!--'', Opt (Lit CHR '' ''),
                      Group 1 (Plus (Class False (lower_letters @ upper_letters))),
                      Lit CHR '':'', Group 2 (Star dot), lit ''-->''],
      ignoreCase = False, global = True\<rparr>"

text \<open>
  The loop of \<^verbatim>\<open>parseMeta\<close>: \<^verbatim>\<open>commentMeta.exec(content)\<close> starts at the \<^verbatim>\<open>lastIndex\<close> of the
  regular expression and moves it behind the match; the loop ends at the first \<^verbatim>\<open>null\<close>.
  The value is \<open>None\<close> when the loop runs forever. \<^verbatim>\<open>match[1]\<close> and \<^verbatim>\<open>match[2]\<close> are
  strings whenever the pattern matches, since both groups take part in every match.
\<close>

partial_function (option) parseMeta_loop ::
  "string \<Rightarrow> nat \<Rightarrow> (string \<rightharpoonup> string) \<Rightarrow> (string \<rightharpoonup> string) option" where
  "parseMeta_loop contents lastIndex results =
     (case regexp_exec commentMeta contents lastIndex of
        None \<Rightarrow> Some results
      | Some (match, lastIndex') \<Rightarrow>
          parseMeta_loop contents lastIndex'
            (results(toLower (to_string (match ! 1)) \<mapsto> trim (to_string (match ! 2)))))"

declare parseMeta_loop.simps [code]

definition parseMeta :: "string \<Rightarrow> (string \<rightharpoonup> string) option" where
  "parseMeta contents = parseMeta_loop contents 0 Map.empty"

text \<open>
  What an entry of the result looks like: the key is a non-empty string of the letters
  \<^verbatim>\<open>a\<close> to \<^verbatim>\<open>z\<close>, and the value has no white space at either end.
\<close>

definition is_lower_letter :: "char \<Rightarrow> bool" where
  "is_lower_letter c = (c \<in> set lower_letters)"

definition trimmed :: "string \<Rightarrow> bool" where
  "trimmed v = (v = [] \<or> (\<not> is_space (hd v) \<and> \<not> is_space (last v)))"

definition meta_entry :: "string \<Rightarrow> string \<Rightarrow> bool" where
  "meta_entry key v = (key \<noteq> [] \<and> list_all is_lower_letter key \<and> trimmed v)"

text \<open>
  A comment directive, as the pattern reads it: \<^verbatim>\<open><!--\<close>, one space or none, a name of one
  or more letters, a colon, a value without a line terminator, and \<^verbatim>\<open>-->\<close>.
\<close>

definition is_letter :: "char \<Rightarrow> bool" where
  "is_letter c = (c \<in> set (lower_letters @ upper_letters))"

definition line_terminator :: "char \<Rightarrow> bool" where
  "line_terminator c = (c \<in> set [CHR 0x0A, CHR 0x0D])"

definition directive :: "string \<Rightarrow> string \<Rightarrow> string \<Rightarrow> bool" where
  "directive d name v =
     (name \<noteq> [] \<and> list_all is_letter name \<and> \<not> list_ex line_terminator v \<and>
      d \<in> set [''<!--'' @ name @ '':'' @ v @ ''-->'', ''<!-- '' @ name @ '':'' @ v @ ''-->''])"

text \<open>
  The line of a directive: \<open>last_line s\<close> is what \<open>s\<close> has after its last line terminator,
  and \<open>first_line s\<close> what it has before its first one.
\<close>

definition last_line :: "string \<Rightarrow> string" where
  "last_line s = rev (takeWhile (\<lambda>c. \<not> line_terminator c) (rev s))"

definition first_line :: "string \<Rightarrow> string" where
  "first_line s = takeWhile (\<lambda>c. \<not> line_terminator c) s"

text \<open>
  The opening of a directive at the start of a string: \<^verbatim>\<open><!--\<close>, one space or none, a name
  of one or more letters, and a colon. \<open>opens_within s\<close> tells that a directive opens at
  some position of \<open>s\<close>.
\<close>

definition opens :: "string \<Rightarrow> bool" where
  "opens s =
     (take 4 s = ''<!--'' \<and>
      (let t = drop 4 s; t' = (if take 1 t = '' '' then drop 1 t else t)
       in takeWhile is_letter t' \<noteq> [] \<and> take 1 (dropWhile is_letter t') = '':''))"

definition opens_within :: "string \<Rightarrow> bool" where
  "opens_within s = list_ex (\<lambda>k. opens (drop k s)) [0..<length s]"

text \<open>
  A pattern that matches inside one line: none of its characters and classes takes a
  line terminator, and it has no anchor.
\<close>

fun within_line :: "regex \<Rightarrow> bool" where
  "within_line (Lit c) = (\<not> line_terminator c)"
| "within_line (Class negated cs) =
     list_all (\<lambda>x. \<not> in_class False negated cs x) [CHR 0x0A, CHR 0x0D]"
| "within_line Empty = True"
| "within_line (Seq a b) = (within_line a \<and> within_line b)"
| "within_line (Alt a b) = (within_line a \<and> within_line b)"
| "within_line (Opt a) = within_line a"
| "within_line (Star a) = within_line a"
| "within_line (Group n a) = within_line a"
| "within_line EndAnchor = False"

text \<open>
  One turn of the loop of \<^verbatim>\<open>parseMeta\<close>, read off the match: the key and the value that it
  stores for the next match from the index \<open>i\<close>, and the index after that match.
\<close>

definition next_entry :: "string \<Rightarrow> nat \<Rightarrow> (string \<times> string \<times> nat) option" where
  "next_entry contents i =
     map_option (\<lambda>(m, j). (toLower (to_string (m ! 1)), trim (to_string (m ! 2)), j))
       (regexp_exec commentMeta contents i)"

section \<open>Video links\<close>

text \<open>
  A video rule: the selector, the pattern (\<open>None\<close> for \<^verbatim>\<open>false\<close>) and the template
  (\<^verbatim>\<open>output\<close> in the source).
\<close>

record vrule =
  selector :: string
  regexp :: "regexp option"
  output_markup :: string

definition youtube :: vrule where
  \<open>youtube =
     \<lparr>selector = ''a.youtube'',
      regexp = Some
        \<lparr>pattern = seqs
           [alts [alts [lit ''youtu.be/'', lit ''v/'', lit ''vi/'',
                        seqs [lit ''u/'', word, Lit CHR ''/''], lit ''embed/''],
                  alts [seqs [Opt (lit ''watch''), lit ''?v'', Opt (Lit CHR ''i''), Lit CHR ''=''],
                        seqs [lit ''&v'', Opt (Lit CHR ''i''), Lit CHR ''='']]],
            Group 1 (Star (Class True ''#&?'')),
            Star dot],
         ignoreCase = True, global = False\<rparr>,
      output_markup = ''<iframe width="640" height="360" src="https://www.youtube.com/embed/{0}?rel=0" frameborder="0" allowfullscreen></iframe>''\<rparr>\<close>

definition vimeo :: vrule where
  \<open>vimeo =
     \<lparr>selector = ''a.vimeo'',
      regexp = Some
        \<lparr>pattern = seqs
           [lit ''vimeo'', dot, lit ''com/'',
            alts [seqs [lit ''channels/'', Opt (seqs [Plus word, Lit CHR ''/''])],
                  seqs [lit ''groups/'', Star (Class True ''/''), lit ''/videos/''],
                  seqs [lit ''album/'', Plus digit, lit ''/video/''],
                  Empty],
            Group 1 (Plus digit),
            alts [EndAnchor, Lit CHR ''/'', Lit CHR ''?'']],
         ignoreCase = True, global = False\<rparr>,
      output_markup = ''<iframe src="https://player.vimeo.com/video/{0}" width="640" height="360" frameborder="0" webkitallowfullscreen mozallowfullscreen allowfullscreen></iframe>''\<rparr>\<close>

definition dailymotion :: vrule where
  \<open>dailymotion =
     \<lparr>selector = ''a.dailymotion'',
      regexp = Some
        \<lparr>pattern = seqs
           [alts [seqs [lit ''dailymotion.com'', Opt (lit ''/embed''),
                        alts [lit ''/video'', lit ''/hub'']],
                  lit ''dai.ly''],
            Lit CHR ''/'',
            Group 1 (Plus (Class False (digits @ lower_letters))),
            Opt (seqs [Plus (Class False (''-_'' @ digits @ lower_letters @ upper_letters)),
                       Opt (lit ''#video=''),
                       Opt (Group 2 (Plus (Class False (lower_letters @ digits))))])],
         ignoreCase = True, global = False\<rparr>,
      output_markup = ''<iframe width="640" height="360" src="//www.dailymotion.com/embed/video/{0}?endscreen-enable=false" frameborder="0" allowfullscreen></iframe>''\<rparr>\<close>

definition video :: vrule where
  \<open>video =
     \<lparr>selector = ''a.video'',
      regexp = None,
      output_markup = ''<video width="640" height="360" controls preload="metadata"><source src="{0}" type="video/mp4"></video>''\<rparr>\<close>

definition videoRules :: "vrule list" where
  "videoRules = [youtube, vimeo, dailymotion, video]"

text \<open>
  What the inner function of the video loop computes for one matched link: \<open>href\<close> is
  \<^verbatim>\<open>cr(elm).attr('href')\<close>, \<open>None\<close> when the link has no such attribute. Calling \<^verbatim>\<open>match\<close>
  on \<^verbatim>\<open>undefined\<close> throws. \<^verbatim>\<open>_.filter\<close> keeps the non-empty strings of the match and
  \<^verbatim>\<open>_.last\<close> takes the last one (\<^verbatim>\<open>undefined\<close> when there is none). The result is the
  markup that replaces the link.
\<close>

definition last_string :: "string option list \<Rightarrow> string option" where
  "last_string vidMatches =
     (case filter (\<lambda>f. f \<noteq> None \<and> f \<noteq> Some []) vidMatches of
        [] \<Rightarrow> None
      | m # ms \<Rightarrow> last (m # ms))"

definition processedLink :: "vrule \<Rightarrow> string option \<Rightarrow> error + string" where
  "processedLink vrule href =
     (case regexp vrule of
        None \<Rightarrow> Inr (string_replace (output_markup vrule) ''{0}'' (to_string href))
      | Some re \<Rightarrow>
          (case href of
             None \<Rightarrow> Inl TypeError
           | Some originLink \<Rightarrow>
               (case string_match originLink re of
                  None \<Rightarrow> Inr (string_replace (output_markup vrule) ''{0}'' originLink)
                | Some vidMatches \<Rightarrow>
                    Inr (string_replace (output_markup vrule) ''{0}''
                           (to_string (last_string vidMatches))))))"

section \<open>The markup tree and the transformations of \<^verbatim>\<open>parseContent\<close>\<close>

text \<open>
  The tree that cheerio loads from the rendered markup: elements with their tag, their
  attributes and their children, text nodes and comments. The calls into cheerio are
  modelled by what its documentation says they do; the parser that turns markup into
  nodes (used when a node is replaced by markup) is a parameter \<open>parse\<close>. The model
  starts at the loaded tree and ends before \<^verbatim>\<open>cr.html()\<close> writes it out.
\<close>

datatype dom =
    Element (tag: string) (attribs: "(string \<times> string) list") (children: "dom list")
  | Text string
  | Comment string

definition is_element :: "dom \<Rightarrow> bool" where
  "is_element n = (case n of Element t at kids \<Rightarrow> True | _ \<Rightarrow> False)"

definition is_tag :: "string list \<Rightarrow> dom \<Rightarrow> bool" where
  "is_tag names n = (case n of Element t at kids \<Rightarrow> t \<in> set names | _ \<Rightarrow> False)"

definition attr :: "string \<Rightarrow> dom \<Rightarrow> string option" where
  "attr name n = (case n of Element t at kids \<Rightarrow> map_of at name | _ \<Rightarrow> None)"

definition set_attr :: "string \<Rightarrow> string \<Rightarrow> dom \<Rightarrow> dom" where
  "set_attr name v n =
     (case n of Element t at kids \<Rightarrow> Element t (AList.update name v at) kids | _ \<Rightarrow> n)"

definition removeAttr :: "string \<Rightarrow> dom \<Rightarrow> dom" where
  "removeAttr name n =
     (case n of Element t at kids \<Rightarrow> Element t (AList.delete name at) kids | _ \<Rightarrow> n)"

text \<open>
  \<^verbatim>\<open>split(/\s+/)\<close>: the pieces between the runs of white space (the first and the last
  piece may be empty; \<open>sep\<close> tells that the last character was white space), and
  \<^verbatim>\<open>join(' ')\<close>.
\<close>

fun split_space :: "string \<Rightarrow> bool \<Rightarrow> string \<Rightarrow> string list" where
  "split_space piece sep [] = [piece]"
| "split_space piece sep (c # s) =
     (if is_space c then
        (if sep then split_space piece True s else piece # split_space [] True s)
      else split_space (piece @ [c]) False s)"

definition class_names :: "string \<Rightarrow> string list" where
  "class_names v = split_space [] False v"

fun join_space :: "string list \<Rightarrow> string" where
  "join_space [] = []"
| "join_space [w] = w"
| "join_space (w # ws) = w @ '' '' @ join_space ws"

fun contains :: "string \<Rightarrow> string \<Rightarrow> bool" where
  "contains pat s =
     (take (length pat) s = pat \<or> (case s of [] \<Rightarrow> False | c # s' \<Rightarrow> contains pat s'))"

text \<open>A class selector holds when the name is one of the words of the class attribute.\<close>

definition hasClass :: "string \<Rightarrow> dom \<Rightarrow> bool" where
  "hasClass name n =
     (case attr ''class'' n of None \<Rightarrow> False | Some c \<Rightarrow> name \<in> set (class_names c))"

text \<open>
  \<^verbatim>\<open>addClass\<close>: nothing for an empty value or a node that is no element; the names that
  the class attribute does not have yet are appended to it.
\<close>

definition addClass :: "string \<Rightarrow> dom \<Rightarrow> dom" where
  "addClass v n =
     (if v = [] \<or> \<not> is_element n then n
      else case attr ''class'' n of
          None \<Rightarrow> set_attr ''class'' (trim (join_space (class_names v))) n
        | Some className \<Rightarrow>
            if className = [] then set_attr ''class'' (trim (join_space (class_names v))) n
            else set_attr ''class''
                   (trim (foldl (\<lambda>setClass name.
                                    if contains ('' '' @ name @ '' '') setClass then setClass
                                    else setClass @ name @ '' '')
                            ('' '' @ className @ '' '') (class_names v))) n)"

text \<open>\<^verbatim>\<open>removeClass\<close> with one class name: every occurrence of the name is taken out.\<close>

definition removeClass :: "string \<Rightarrow> dom \<Rightarrow> dom" where
  "removeClass name n =
     (case attr ''class'' n of
        None \<Rightarrow> n
      | Some className \<Rightarrow>
          (let elClasses = (if className = [] then [] else class_names (trim className))
           in if name \<in> set elClasses
              then set_attr ''class'' (join_space (removeAll name elClasses)) n
              else n))"

text \<open>\<^verbatim>\<open>text()\<close>: the text of the text nodes below a node, in order.\<close>

fun text_of :: "dom \<Rightarrow> string" where
  "text_of (Element t at kids) = concat (map text_of kids)"
| "text_of (Text s) = s"
| "text_of (Comment s) = []"

text \<open>Changing the first and the last element of a list of nodes.\<close>

fun map_first_element :: "(dom \<Rightarrow> dom list) \<Rightarrow> dom list \<Rightarrow> dom list" where
  "map_first_element f [] = []"
| "map_first_element f (n # ns) = (if is_element n then f n @ ns else n # map_first_element f ns)"

definition map_last_element :: "(dom \<Rightarrow> dom list) \<Rightarrow> dom list \<Rightarrow> dom list" where
  "map_last_element f ns = rev (map_first_element (\<lambda>n. rev (f n)) (rev ns))"

definition last_element :: "dom list \<Rightarrow> dom option" where
  "last_element ns = (case filter is_element ns of [] \<Rightarrow> None | e # es \<Rightarrow> Some (last (e # es)))"

text \<open>
  The empty first element. \<^verbatim>\<open>firstElm\<close> is the first element of the document itself
  (\<^verbatim>\<open>first()[0]\<close>), a node of the tree and not a selection. When it is a paragraph
  without any child, the source calls \<^verbatim>\<open>firstElm.remove()\<close>; a node has no such method, so
  the call throws a \<^verbatim>\<open>TypeError\<close>. When its only child is an image, it gets the class
  \<^verbatim>\<open>is-gapless\<close>. \<open>on_first_element\<close> applies this to the first element of a list of nodes.
\<close>

definition first_paragraph :: "dom \<Rightarrow> error + dom" where
  "first_paragraph firstElm =
     (if is_tag [''p''] firstElm then
        (case children firstElm of
           [] \<Rightarrow> Inl TypeError
         | [c] \<Rightarrow> if is_tag [''img''] c then Inr (addClass ''is-gapless'' firstElm)
                  else Inr firstElm
         | _ \<Rightarrow> Inr firstElm)
      else Inr firstElm)"

fun on_first_element :: "(dom \<Rightarrow> error + dom) \<Rightarrow> dom list \<Rightarrow> error + dom list" where
  "on_first_element f [] = Inr []"
| "on_first_element f (n # ns) =
     (if is_element n then (case f n of Inl e \<Rightarrow> Inl e | Inr n' \<Rightarrow> Inr (n' # ns))
      else (case on_first_element f ns of Inl e \<Rightarrow> Inl e | Inr ns' \<Rightarrow> Inr (n # ns')))"

text \<open>
  Links in headers: a link that is a child of an \<^verbatim>\<open>h1\<close>, \<^verbatim>\<open>h2\<close> or \<^verbatim>\<open>h3\<close> and has not the
  class \<^verbatim>\<open>toc-anchor\<close> is replaced by its text, read as markup.
\<close>

definition header_link :: "dom \<Rightarrow> bool" where
  "header_link n = (is_tag [''a''] n \<and> \<not> hasClass ''toc-anchor'' n)"

fun strip_links :: "(string \<Rightarrow> dom list) \<Rightarrow> dom \<Rightarrow> dom" where
  "strip_links parse (Element t at kids) =
     Element t at
       (if t \<in> set [''h1'', ''h2'', ''h3'']
        then concat (map (\<lambda>k. if header_link k then parse (text_of k)
                               else [strip_links parse k]) kids)
        else map (strip_links parse) kids)"
| "strip_links parse n = n"

text \<open>
  Blockquotes at the top of the document: the classes of the last child element, when
  it has some, move to the blockquote.
\<close>

definition blockquote_class :: "dom \<Rightarrow> dom" where
  "blockquote_class elm =
     (if is_tag [''blockquote''] elm then
        (case last_element (children elm) of
           None \<Rightarrow> elm
         | Some bqLastChild \<Rightarrow>
             (case attr ''class'' bqLastChild of
                None \<Rightarrow> elm
              | Some bqLastChildClasses \<Rightarrow>
                  if bqLastChildClasses = [] then elm
                  else addClass bqLastChildClasses
                         (Element (tag elm) (attribs elm)
                            (map_last_element (\<lambda>c. [removeAttr ''class'' c]) (children elm)))))
      else elm)"

text \<open>
  Enclosing the content below the headers of tag \<open>h\<close>, everywhere in the tree: the
  elements that follow a header, up to the next element with a tag in \<open>until\<close>, are moved
  into a new \<^verbatim>\<open>div\<close> of class \<open>cls\<close> placed right after the header. \<^verbatim>\<open>nextUntil\<close> gives
  elements only, so text and comments in between stay where they are, after the new
  \<^verbatim>\<open>div\<close>.
\<close>

function (sequential) enclose :: "string \<Rightarrow> string list \<Rightarrow> string \<Rightarrow> dom list \<Rightarrow> dom list" where
  "enclose h until cls [] = []"
| "enclose h until cls (Element t at kids # ns) =
     (if t = h then
        Element t at (enclose h until cls kids) #
        Element ''div'' [(''class'', cls)]
          (enclose h until cls (filter is_element (takeWhile (\<lambda>n. \<not> is_tag until n) ns))) #
        filter (\<lambda>n. \<not> is_element n) (takeWhile (\<lambda>n. \<not> is_tag until n) ns) @
        enclose h until cls (dropWhile (\<lambda>n. \<not> is_tag until n) ns)
      else Element t at (enclose h until cls kids) # enclose h until cls ns)"
| "enclose h until cls (Text s # ns) = Text s # enclose h until cls ns"
| "enclose h until cls (Comment s # ns) = Comment s # enclose h until cls ns"
  by pat_completeness auto

termination
proof (relation "measure (\<lambda>(h, until, cls, ns). size_list size ns)", goal_cases)
  case 1
  show ?case by simp
next
  case (2 h until cls t at kids ns)
  show ?case by simp
next
  case (3 h until cls t at kids ns)
  have "size_list size (filter is_element (takeWhile (\<lambda>n. \<not> is_tag until n) ns))
        \<le> size_list size (takeWhile (\<lambda>n. \<not> is_tag until n) ns)"
    by (induction ns) auto
  also have "\<dots> \<le> size_list size ns" by (induction ns) auto
  finally show ?case by simp
next
  case (4 h until cls t at kids ns)
  have "size_list size (dropWhile (\<lambda>n. \<not> is_tag until n) ns) \<le> size_list size ns"
    by (induction ns) auto
  then show ?case by simp
next
  case (5 h until cls t at kids ns)
  show ?case by simp
next
  case (6 h until cls t at kids ns)
  show ?case by simp
next
  case 7
  then show ?case by simp
next
  case 8
  then show ?case by simp
qed

text \<open>
  The video links. A rule selects the elements with the tag and the class of its
  selector (\<^verbatim>\<open>a.youtube\<close>), in the order of the document, nested ones included; each is
  replaced by the markup of \<open>processedLink\<close>, read by the parser. The first element for
  which \<open>processedLink\<close> throws ends the transformation with that exception. An element
  below a replaced one is still visited, and taken out of the document with it.
\<close>

definition selected :: "string \<Rightarrow> dom \<Rightarrow> bool" where
  "selected sel n =
     (is_tag [takeWhile (\<lambda>c. c \<noteq> CHR ''.'') sel] n \<and>
      hasClass (drop 1 (dropWhile (\<lambda>c. c \<noteq> CHR ''.'') sel)) n)"

fun embed :: "(string \<Rightarrow> dom list) \<Rightarrow> vrule \<Rightarrow> dom \<Rightarrow> error + dom list"
  and embed_all :: "(string \<Rightarrow> dom list) \<Rightarrow> vrule \<Rightarrow> dom list \<Rightarrow> error + dom list" where
  "embed parse vrule (Element t at kids) =
     (if selected (selector vrule) (Element t at kids) then
        (case processedLink vrule (map_of at ''href'') of
           Inl e \<Rightarrow> Inl e
         | Inr markup \<Rightarrow>
             (case embed_all parse vrule kids of
                Inl e \<Rightarrow> Inl e
              | Inr kids' \<Rightarrow> Inr (parse markup)))
      else
        (case embed_all parse vrule kids of
           Inl e \<Rightarrow> Inl e
         | Inr kids' \<Rightarrow> Inr [Element t at kids']))"
| "embed parse vrule (Text s) = Inr [Text s]"
| "embed parse vrule (Comment s) = Inr [Comment s]"
| "embed_all parse vrule [] = Inr []"
| "embed_all parse vrule (n # ns) =
     (case embed parse vrule n of
        Inl e \<Rightarrow> Inl e
      | Inr ms \<Rightarrow>
          (case embed_all parse vrule ns of
             Inl e \<Rightarrow> Inl e
           | Inr ms' \<Rightarrow> Inr (ms @ ms')))"

fun embed_videos :: "(string \<Rightarrow> dom list) \<Rightarrow> vrule list \<Rightarrow> dom list \<Rightarrow> error + dom list" where
  "embed_videos parse [] doc = Inr doc"
| "embed_videos parse (vrule # vrules) doc =
     (case embed_all parse vrule doc of
        Inl e \<Rightarrow> Inl e
      | Inr doc' \<Rightarrow> embed_videos parse vrules doc')"

text \<open>
  Centred images: an image of class \<^verbatim>\<open>align-center\<close> loses the class and its parent
  element gets it. In the order of the document an element first loses its own class and
  then gets the class from an image among its children.
\<close>

definition centered :: "dom \<Rightarrow> bool" where
  "centered n = (is_tag [''img''] n \<and> hasClass ''align-center'' n)"

fun align_center :: "dom \<Rightarrow> dom" where
  "align_center (Element t at kids) =
     (let elm = (if centered (Element t at kids)
                 then removeClass ''align-center'' (Element t at (map align_center kids))
                 else Element t at (map align_center kids))
      in if list_ex centered kids then addClass ''align-center'' elm else elm)"
| "align_center n = n"

text \<open>
  \<^verbatim>\<open>parseContent\<close>, from the tree \<open>doc\<close> (the children of the root) that cheerio loads from
  the rendered content, to the tree that is written out; a document without any element
  gives the empty output.
\<close>

definition section_enclosure :: "dom list \<Rightarrow> dom list" where
  "section_enclosure doc =
     enclose ''h3'' [''h1'', ''h2'', ''h3''] ''indent-h3''
       (enclose ''h2'' [''h1'', ''h2''] ''indent-h2'' doc)"

definition parseContent :: "(string \<Rightarrow> dom list) \<Rightarrow> dom list \<Rightarrow> error + dom list" where
  "parseContent parse doc =
     (if \<not> list_ex is_element doc then Inr []
      else case on_first_element first_paragraph doc of
          Inl e \<Rightarrow> Inl e
        | Inr doc1 \<Rightarrow>
            (case embed_videos parse videoRules
                    (section_enclosure (map blockquote_class (map (strip_links parse) doc1))) of
               Inl e \<Rightarrow> Inl e
             | Inr doc' \<Rightarrow> Inr (map align_center doc')))"

text \<open>The number of elements of a given tag in a forest.\<close>

fun count_tag :: "string \<Rightarrow> dom \<Rightarrow> nat" where
  "count_tag x (Element t at kids) = (if t = x then 1 else 0) + sum_list (map (count_tag x) kids)"
| "count_tag x n = 0"

definition count_tags :: "string \<Rightarrow> dom list \<Rightarrow> nat" where
  "count_tags x doc = sum_list (map (count_tag x) doc)"

section \<open>Properties of the tree builder\<close>

subsection \<open>The loop, one case at a time\<close>

lemma build_loop_end:
  "\<not> index < length array \<Longrightarrow>
   build_loop array requestedLevel tree index = Some (Inr (tree, index))"
  by (subst build_loop.simps) simp

lemma build_loop_lt:
  "index < length array \<Longrightarrow> level (array ! index) < requestedLevel \<Longrightarrow>
   build_loop array requestedLevel tree index = Some (Inr (tree, index))"
  by (subst build_loop.simps) (simp add: Let_def)

lemma build_loop_eq:
  "index < length array \<Longrightarrow> level (array ! index) = requestedLevel \<Longrightarrow>
   build_loop array requestedLevel tree index =
   build_loop array requestedLevel
     (tree @ [Node (content (array ! index)) (anchor (array ! index)) []]) (index + 1)"
  by (subst build_loop.simps) (simp add: Let_def)

lemma build_loop_gt:
  "index < length array \<Longrightarrow> requestedLevel < level (array ! index) \<Longrightarrow>
   build_loop array requestedLevel tree index =
   Option.bind (build_loop array (or_one (level (array ! index))) [] index)
     (\<lambda>r. case r of
         Inl e \<Rightarrow> Some (Inl e)
       | Inr (nextLevelTree, startFrom) \<Rightarrow>
           (case set_last_nodes tree nextLevelTree of
              Inl e \<Rightarrow> Some (Inl e)
            | Inr tree' \<Rightarrow> build_loop array requestedLevel tree' startFrom))"
  by (subst build_loop.simps) (simp add: Let_def)

subsection \<open>The example of the specification\<close>

text \<open>
  C1. The headings A (level 1), B (level 2), C (level 3), D (level 2), built with the
  default start level and the default context, give one root A whose children are B,
  with the only child C, and D; the cursor ends at 4. The anchors, which the example
  leaves out, are copied whatever they are.
\<close>

theorem buildTreeFlatArray_example:
  "buildTreeFlatArray
     [\<lparr>content = ''A'', anchor = a1, level = 1\<rparr>, \<lparr>content = ''B'', anchor = a2, level = 2\<rparr>,
      \<lparr>content = ''C'', anchor = a3, level = 3\<rparr>, \<lparr>content = ''D'', anchor = a4, level = 2\<rparr>]
     None None =
   Some (Inr ([Node ''A'' a1 [Node ''B'' a2 [Node ''C'' a3 []], Node ''D'' a4 []]], 4))"
  by (simp add: buildTreeFlatArray_def or_one_def build_loop.simps set_last_nodes_def)

subsection \<open>A heading deeper than the start level, with no node to hang it on\<close>

text \<open>
  C2. The builder does not return normally on every list: when the first heading is
  deeper than the requested level, the subtree is built and then assigned to the
  \<^verbatim>\<open>nodes\<close> of the last element of an empty array, which throws a \<^verbatim>\<open>TypeError\<close>.
  Here a single heading of level 2 is built with the default start level 1.
\<close>

theorem buildTreeFlatArray_orphan_throws:
  "buildTreeFlatArray [\<lparr>content = ''X'', anchor = None, level = 2\<rparr>] None None =
   Some (Inl TypeError)"
  by (simp add: buildTreeFlatArray_def or_one_def build_loop.simps set_last_nodes_def)

subsection \<open>Termination\<close>

lemma build_loop_total:
  assumes "requestedLevel \<noteq> 0"
    and "0 \<le> requestedLevel \<or> (\<forall>h \<in> set array. level h \<noteq> 0)"
  shows "\<exists>r. build_loop array requestedLevel tree index = Some r \<and>
            (\<forall>t j. r = Inr (t, j) \<longrightarrow> index \<le> j)"
  using assms
proof (induction "length array - index" arbitrary: requestedLevel tree index rule: less_induct)
  case less
  show ?case
  proof (cases "index < length array")
    case False
    then show ?thesis by (simp add: build_loop_end)
  next
    case True
    let ?c = "array ! index"
    consider (lt) "level ?c < requestedLevel" | (eq) "level ?c = requestedLevel"
      | (gt) "requestedLevel < level ?c" by linarith
    then show ?thesis
    proof cases
      case lt
      with True show ?thesis by (simp add: build_loop_lt)
    next
      case eq
      have "length array - (index + 1) < length array - index" using True by simp
      from less.hyps[OF this less.prems, of "tree @ [Node (content ?c) (anchor ?c) []]"]
      obtain r where r: "build_loop array requestedLevel (tree @ [Node (content ?c) (anchor ?c) []]) (index + 1) = Some r"
        "\<forall>t j. r = Inr (t, j) \<longrightarrow> index + 1 \<le> j" by blast
      have "build_loop array requestedLevel tree index = Some r"
        using build_loop_eq[OF True eq] r(1) by simp
      with r(2) show ?thesis by auto
    next
      case gt
      have mem: "?c \<in> set array" using True by simp
      have nz: "level ?c \<noteq> 0" using gt less.prems mem by auto
      have pr: "0 \<le> level ?c \<or> (\<forall>h \<in> set array. level h \<noteq> 0)" using gt less.prems by auto
      have first: "build_loop array (level ?c) [] index =
            build_loop array (level ?c) [Node (content ?c) (anchor ?c) []] (index + 1)"
        using build_loop_eq[OF True refl, of "[]"] by simp
      have dec: "length array - (index + 1) < length array - index" using True by simp
      from less.hyps[OF dec nz pr, of "[Node (content ?c) (anchor ?c) []]"]
      obtain r1 where r1: "build_loop array (level ?c) [] index = Some r1"
        "\<forall>t j. r1 = Inr (t, j) \<longrightarrow> index + 1 \<le> j" using first by auto
      have unf: "build_loop array requestedLevel tree index =
          (case r1 of Inl e \<Rightarrow> Some (Inl e)
           | Inr (nextLevelTree, startFrom) \<Rightarrow>
               (case set_last_nodes tree nextLevelTree of Inl e \<Rightarrow> Some (Inl e)
                | Inr tree' \<Rightarrow> build_loop array requestedLevel tree' startFrom))"
        using build_loop_gt[OF True gt] nz r1(1) by (simp add: or_one_def)
      show ?thesis
      proof (cases r1)
        case (Inl e)
        then show ?thesis using unf by simp
      next
        case (Inr p)
        obtain sub j where p: "p = (sub, j)" by (cases p)
        have j: "index + 1 \<le> j" using r1(2) Inr p by simp
        show ?thesis
        proof (cases "set_last_nodes tree sub")
          case (Inl e)
          then show ?thesis using unf \<open>r1 = Inr p\<close> p by simp
        next
          case (Inr tree')
          have "length array - j < length array - index" using True j by simp
          from less.hyps[OF this less.prems, of tree']
          obtain r where r: "build_loop array requestedLevel tree' j = Some r"
            "\<forall>t k. r = Inr (t, k) \<longrightarrow> j \<le> k" by blast
          have "build_loop array requestedLevel tree index = Some r"
            using unf \<open>r1 = Inr p\<close> p Inr r(1) by simp
          then show ?thesis using r(2) j by auto
        qed
      qed
    qed
  qed
qed

text \<open>
  C10. The builder terminates, by returning or by throwing, for every list of headings,
  every requested level and every starting index, as long as no heading has level 0 or
  the requested level is not negative (heading records have levels from 1 on). When it
  returns, the cursor left in the context is not before the starting index. The loop
  recurses on a heading deeper than the requested level, at the heading's own level and
  from its index: that call terminates too and, since its first iteration takes the
  heading itself, the cursor it returns is strictly after the index.
\<close>

theorem buildTreeFlatArray_terminates:
  assumes "(\<forall>l. requestedLevel = Some l \<longrightarrow> 0 \<le> l) \<or> (\<forall>h \<in> set array. level h \<noteq> 0)"
  shows "(\<exists>r. buildTreeFlatArray array requestedLevel startFrom = Some r \<and>
            (\<forall>tree index. r = Inr (tree, index) \<longrightarrow>
               (case startFrom of None \<Rightarrow> 0 | Some i \<Rightarrow> i) \<le> index)) \<and>
         (\<forall>i < length array.
            or_one (case requestedLevel of None \<Rightarrow> 0 | Some l \<Rightarrow> l) < level (array ! i) \<longrightarrow>
            (\<exists>r. buildTreeFlatArray array (Some (level (array ! i))) (Some i) = Some r \<and>
               (\<forall>tree j. r = Inr (tree, j) \<longrightarrow> i < j)))"
proof (intro conjI allI impI)
  let ?l = "or_one (case requestedLevel of None \<Rightarrow> 0 | Some l \<Rightarrow> l)"
  have nz: "?l \<noteq> 0" by (simp add: or_one_def)
  have "0 \<le> ?l \<or> (\<forall>h \<in> set array. level h \<noteq> 0)"
    using assms by (cases requestedLevel) (auto simp: or_one_def)
  from build_loop_total[OF nz this]
  show "\<exists>r. buildTreeFlatArray array requestedLevel startFrom = Some r \<and>
            (\<forall>tree index. r = Inr (tree, index) \<longrightarrow>
               (case startFrom of None \<Rightarrow> 0 | Some i \<Rightarrow> i) \<le> index)"
    unfolding buildTreeFlatArray_def by blast
next
  fix i
  let ?l = "or_one (case requestedLevel of None \<Rightarrow> 0 | Some l \<Rightarrow> l)"
  let ?c = "array ! i"
  assume i: "i < length array" and gt: "?l < level ?c"
  have mem: "?c \<in> set array" using i by simp
  have pr: "0 \<le> level ?c \<or> (\<forall>h \<in> set array. level h \<noteq> 0)"
    using assms gt by (cases requestedLevel) (auto simp: or_one_def split: if_splits)
  have nz: "level ?c \<noteq> 0"
    using assms gt mem by (cases requestedLevel) (auto simp: or_one_def split: if_splits)
  have first: "build_loop array (level ?c) [] i =
        build_loop array (level ?c) [Node (content ?c) (anchor ?c) []] (i + 1)"
    using build_loop_eq[OF i refl, of "[]"] by simp
  from build_loop_total[OF nz pr, of "[Node (content ?c) (anchor ?c) []]" "i + 1"]
  obtain r where r: "build_loop array (level ?c) [Node (content ?c) (anchor ?c) []] (i + 1) = Some r"
    "\<forall>t j. r = Inr (t, j) \<longrightarrow> i + 1 \<le> j" by blast
  have "buildTreeFlatArray array (Some (level ?c)) (Some i) = Some r"
    using first r(1) nz by (simp add: buildTreeFlatArray_def or_one_def)
  moreover have "\<forall>tree j. r = Inr (tree, j) \<longrightarrow> i < j" using r(2) by auto
  ultimately show "\<exists>r. buildTreeFlatArray array (Some (level ?c)) (Some i) = Some r \<and>
               (\<forall>tree j. r = Inr (tree, j) \<longrightarrow> i < j)" by blast
qed

theorem buildTreeFlatArray_terminates_witness:
  "\<exists>tree index.
     buildTreeFlatArray [\<lparr>content = ''A'', anchor = None, level = 1\<rparr>,
        \<lparr>content = ''B'', anchor = None, level = 1\<rparr>,
        \<lparr>content = ''C'', anchor = None, level = 2\<rparr>] None (Some 1) = Some (Inr (tree, index)) \<and>
     1 \<le> index \<and>
     (\<exists>sub j. buildTreeFlatArray [\<lparr>content = ''A'', anchor = None, level = 1\<rparr>,
        \<lparr>content = ''B'', anchor = None, level = 1\<rparr>,
        \<lparr>content = ''C'', anchor = None, level = 2\<rparr>] (Some 2) (Some 2) = Some (Inr (sub, j)) \<and> 2 < j)"
proof -
  have h: "(\<forall>l. (None :: int option) = Some l \<longrightarrow> 0 \<le> l) \<or>
           (\<forall>h \<in> set [\<lparr>content = ''A'', anchor = None, level = 1\<rparr>,
        \<lparr>content = ''B'', anchor = None, level = 1\<rparr>,
        \<lparr>content = ''C'', anchor = None, level = 2\<rparr>]. level h \<noteq> 0)"
    by simp
  from buildTreeFlatArray_terminates[OF h, of "Some 1"] show ?thesis
    by (simp add: buildTreeFlatArray_def or_one_def build_loop.simps set_last_nodes_def)
qed

text \<open>
  The condition on the levels cannot be dropped: with a negative requested level, a
  heading of level 0 sends the recursive call to level 1 (\<^verbatim>\<open>0 || 1\<close>), where it stops at
  once without moving the cursor, and the loop never ends.
\<close>

lemma build_loop_level_zero_aux:
  assumes "build_loop array L tree index = Some y"
  shows "array = [\<lparr>content = a, anchor = None, level = - 1\<rparr>, \<lparr>content = b, anchor = None, level = 0\<rparr>] \<longrightarrow>
         index = 1 \<longrightarrow>
         (L = 1 \<longrightarrow> tree = [] \<longrightarrow> y = Inr ([], 1)) \<and> (L = - 1 \<longrightarrow> tree = [])"
proof (rule build_loop.raw_induct[where P = "\<lambda>array L tree index y.
     array = [\<lparr>content = a, anchor = None, level = - 1\<rparr>, \<lparr>content = b, anchor = None, level = 0\<rparr>] \<longrightarrow>
         index = 1 \<longrightarrow>
         (L = 1 \<longrightarrow> tree = [] \<longrightarrow> y = Inr ([], 1)) \<and> (L = - 1 \<longrightarrow> tree = [])", OF _ assms], goal_cases)
  case (1 bl array L tree index y)
  note IH = 1(1) and run0 = 1(2)
  show ?case
  proof (intro impI conjI)
    assume arr: "array = [\<lparr>content = a, anchor = None, level = - 1\<rparr>, \<lparr>content = b, anchor = None, level = 0\<rparr>]"
      and idx: "index = 1" and L: "L = 1" and t: "tree = []"
    from run0 show "y = Inr ([], 1)" unfolding arr idx L t by (simp add: Let_def)
  next
    assume arr: "array = [\<lparr>content = a, anchor = None, level = - 1\<rparr>, \<lparr>content = b, anchor = None, level = 0\<rparr>]"
      and idx: "index = 1" and L: "L = - 1"
    show "tree = []"
    proof (rule ccontr)
      assume ne: "tree \<noteq> []"
      from run0 obtain r1 where r1: "bl array 1 [] 1 = Some r1"
        and k: "(case r1 of Inl e \<Rightarrow> Some (Inl e)
              | Inr (nextLevelTree, startFrom) \<Rightarrow>
                  (case set_last_nodes tree nextLevelTree of Inl e \<Rightarrow> Some (Inl e)
                   | Inr tree' \<Rightarrow> bl array (- 1) tree' startFrom)) = Some y"
        unfolding arr idx L by (auto simp: or_one_def bind_eq_Some_conv Let_def)
      from IH[OF r1] arr have "r1 = Inr ([], 1)" by simp
      with k ne obtain tree' where "tree' \<noteq> []" "bl array (- 1) tree' 1 = Some y"
        by (auto simp: set_last_nodes_def)
      with IH[OF this(2)] arr show False by simp
    qed
  qed
qed

lemma buildTreeFlatArray_level_zero_loops:
  "buildTreeFlatArray [\<lparr>content = a, anchor = None, level = - 1\<rparr>,
      \<lparr>content = b, anchor = None, level = 0\<rparr>] (Some (- 1)) None = None"
proof -
  let ?arr = "[\<lparr>content = a, anchor = None, level = - 1\<rparr>, \<lparr>content = b, anchor = None, level = 0\<rparr>]"
  have "build_loop ?arr (- 1) [] 0 = build_loop ?arr (- 1) [Node a None []] 1"
    using build_loop_eq[of 0 ?arr "- 1" "[]"] by simp
  moreover have "build_loop ?arr (- 1) [Node a None []] 1 = None"
  proof (cases "build_loop ?arr (- 1) [Node a None []] 1")
    case (Some y)
    from build_loop_level_zero_aux[OF Some, of a b] show ?thesis by simp
  qed simp
  ultimately show ?thesis by (simp add: buildTreeFlatArray_def or_one_def)
qed

subsection \<open>Well-formed outlines keep every heading, in order\<close>

lemma flatten_forest_simps [simp]:
  "flatten_forest [] = []"
  "flatten_forest (n # ns) = flatten n @ flatten_forest ns"
  "flatten_forest (ms @ ns) = flatten_forest ms @ flatten_forest ns"
  by (simp_all add: flatten_forest_def)

lemma flatten_set_last_nodes:
  assumes "tree \<noteq> []" "nodes (last tree) = []"
  shows "\<exists>tree'. set_last_nodes tree sub = Inr tree' \<and> tree' \<noteq> [] \<and>
           flatten_forest tree' = flatten_forest tree @ flatten_forest sub"
proof -
  obtain c a where l: "last tree = Node c a []" using assms(2) by (cases "last tree") simp
  have t: "tree = butlast tree @ [Node c a []]" using assms(1) l by (metis append_butlast_last_id)
  have "flatten_forest tree = flatten_forest (butlast tree) @ [(c, a)]"
    by (subst t) (simp add: flatten_forest_def)
  then show ?thesis using assms(1) l by (simp add: set_last_nodes_def flatten_forest_def)
qed

lemma sorted_stack_le: "sorted_wrt (>) (L # st) \<Longrightarrow> x \<in> set (L # st) \<Longrightarrow> x \<le> (L::int)"
  by auto

lemma wf_deeper:
  assumes "well_formed_from (L # st) (l # ls)" "L < l" "sorted_wrt (>) (L # st)"
  shows "well_formed_from (l # L # st) ls"
proof -
  have "l \<notin> set (L # st)" using sorted_stack_le[OF assms(3), of l] assms(2) by auto
  then show ?thesis using assms(1) by simp
qed

lemma wf_shallower:
  assumes "well_formed_from (l # L # st) (x # ls)" "x < l"
  shows "well_formed_from (L # st) (x # ls) \<and> x \<in> set (L # st)"
  using assms by (auto split: if_splits)

lemma build_loop_well_formed:
  assumes "well_formed_from (L # st) (map level (drop index array))"
    and "sorted_wrt (>) (L # st)" and "1 \<le> L" and "index \<le> length array"
    and "tree \<noteq> []"
    and "nodes (last tree) = [] \<or> index = length array \<or> level (array ! index) \<le> L"
  shows "\<exists>tree' j. build_loop array L tree index = Some (Inr (tree', j)) \<and>
           index \<le> j \<and> j \<le> length array \<and> tree' \<noteq> [] \<and>
           flatten_forest tree' @ map entry (drop j array) =
             flatten_forest tree @ map entry (drop index array) \<and>
           well_formed_from (L # st) (map level (drop j array)) \<and>
           (j < length array \<longrightarrow> level (array ! j) < L)"
  using assms
proof (induction "length array - index" arbitrary: L st tree index rule: less_induct)
  case less
  show ?case
  proof (cases "index < length array")
    case False
    then show ?thesis using less.prems by (simp add: build_loop_end)
  next
    case True
    let ?c = "array ! index"
    let ?n = "Node (content ?c) (anchor ?c) []"
    have dr: "drop index array = ?c # drop (index + 1) array"
      using True by (simp add: Cons_nth_drop_Suc)
    have wf0: "well_formed_from (L # st) (level ?c # map level (drop (index + 1) array))"
      using less.prems(1) dr by simp
    have dec: "length array - (index + 1) < length array - index" using True by simp
    consider (lt) "level ?c < L" | (eq) "level ?c = L" | (gt) "L < level ?c" by linarith
    then show ?thesis
    proof cases
      case lt
      with True less.prems show ?thesis by (simp add: build_loop_lt)
    next
      case eq
      have wf1: "well_formed_from (L # st) (map level (drop (index + 1) array))"
        using wf0 eq by simp
      from less.hyps[OF dec wf1 less.prems(2,3), of "tree @ [?n]"] True
      obtain tree' j where r: "build_loop array L (tree @ [?n]) (index + 1) = Some (Inr (tree', j))"
        "index + 1 \<le> j" "j \<le> length array" "tree' \<noteq> []"
        "flatten_forest tree' @ map entry (drop j array) =
           flatten_forest (tree @ [?n]) @ map entry (drop (index + 1) array)"
        "well_formed_from (L # st) (map level (drop j array))"
        "j < length array \<longrightarrow> level (array ! j) < L"
        by auto
      have "build_loop array L tree index = Some (Inr (tree', j))"
        using build_loop_eq[OF True eq] r(1) by simp
      moreover have "flatten_forest tree' @ map entry (drop j array) =
           flatten_forest tree @ map entry (drop index array)"
        using r(5) dr by (simp add: entry_def)
      ultimately show ?thesis using r by auto
    next
      case gt
      have nz: "or_one (level ?c) = level ?c" using gt less.prems(3) by (simp add: or_one_def)
      have wf1: "well_formed_from (level ?c # L # st) (map level (drop (index + 1) array))"
        using wf_deeper[OF wf0 gt less.prems(2)] .
      have st1: "sorted_wrt (>) (level ?c # L # st)"
        using less.prems(2) gt by auto
      have first: "build_loop array (level ?c) [] index =
            build_loop array (level ?c) [?n] (index + 1)"
        using build_loop_eq[OF True refl, of "[]"] by simp
      have l1: "1 \<le> level ?c" using gt less.prems(3) by simp
      from less.hyps[OF dec wf1 st1 l1, of "[?n]"] True
      obtain sub j where r1: "build_loop array (level ?c) [?n] (index + 1) = Some (Inr (sub, j))"
        "index + 1 \<le> j" "j \<le> length array"
        "flatten_forest sub @ map entry (drop j array) =
           flatten_forest [?n] @ map entry (drop (index + 1) array)"
        "well_formed_from (level ?c # L # st) (map level (drop j array))"
        "j < length array \<longrightarrow> level (array ! j) < level ?c"
        by auto
      have emp: "nodes (last tree) = []" using less.prems(6) True gt by auto
      from flatten_set_last_nodes[OF less.prems(5) emp, of sub]
      obtain tree1 where t1: "set_last_nodes tree sub = Inr tree1" "tree1 \<noteq> []"
        "flatten_forest tree1 = flatten_forest tree @ flatten_forest sub" by blast
      have unf: "build_loop array L tree index = build_loop array L tree1 j"
        using build_loop_gt[OF True gt] nz first r1(1) t1(1) by simp
      have dec2: "length array - j < length array - index" using True r1(2) by simp
      have nxt: "well_formed_from (L # st) (map level (drop j array)) \<and>
                 (nodes (last tree1) = [] \<or> j = length array \<or> level (array ! j) \<le> L)"
      proof (cases "j < length array")
        case False
        then show ?thesis using r1(3) by simp
      next
        case jl: True
        have drj: "drop j array = array ! j # drop (j + 1) array"
          using jl by (simp add: Cons_nth_drop_Suc)
        have "well_formed_from (level ?c # L # st) (level (array ! j) # map level (drop (j + 1) array))"
          using r1(5) drj by simp
        from wf_shallower[OF this] r1(6) jl
        have a: "well_formed_from (L # st) (level (array ! j) # map level (drop (j + 1) array))"
          and b: "level (array ! j) \<in> set (L # st)" by auto
        from sorted_stack_le[OF less.prems(2) b] a drj show ?thesis by simp
      qed
      from less.hyps[OF dec2 conjunct1[OF nxt] less.prems(2,3) r1(3) t1(2) conjunct2[OF nxt]]
      obtain tree' j' where r: "build_loop array L tree1 j = Some (Inr (tree', j'))"
        "j \<le> j'" "j' \<le> length array" "tree' \<noteq> []"
        "flatten_forest tree' @ map entry (drop j' array) =
           flatten_forest tree1 @ map entry (drop j array)"
        "well_formed_from (L # st) (map level (drop j' array))"
        "j' < length array \<longrightarrow> level (array ! j') < L"
        by blast
      have "flatten_forest tree' @ map entry (drop j' array) =
           flatten_forest tree @ map entry (drop index array)"
        using r(5) t1(3) r1(4) dr by (simp add: entry_def)
      then show ?thesis using unf r r1(2) by auto
    qed
  qed
qed

text \<open>
  C3. For a well-formed list of headings (the first at level 1, the default start level)
  the builder returns a forest and consumes the whole list, and the depth-first
  flattening of the forest is the list of the headings' contents and anchors, in the
  order of the list.
\<close>

theorem buildTreeFlatArray_flatten:
  assumes "well_formed 1 array"
  shows "\<exists>forest. buildTreeFlatArray array None None = Some (Inr (forest, length array)) \<and>
           flatten_forest forest = map entry array"
proof (cases array)
  case Nil
  then show ?thesis by (simp add: buildTreeFlatArray_def or_one_def build_loop_end)
next
  case (Cons h hs)
  let ?n = "Node (content h) (anchor h) []"
  have l: "level h = 1" and wf: "well_formed_from [1] (map level hs)"
    using assms Cons by (simp_all add: well_formed_def)
  have first: "build_loop array 1 [] 0 = build_loop array 1 [?n] 1"
    using build_loop_eq[of 0 array 1 "[]"] l Cons by simp
  have "well_formed_from [1] (map level (drop 1 array))" using wf Cons by simp
  from build_loop_well_formed[OF this, of "[?n]"] Cons
  obtain tree' j where r: "build_loop array 1 [?n] 1 = Some (Inr (tree', j))"
    "j \<le> length array"
    "flatten_forest tree' @ map entry (drop j array) = flatten_forest [?n] @ map entry (drop 1 array)"
    "well_formed_from [1] (map level (drop j array))"
    "j < length array \<longrightarrow> level (array ! j) < 1"
    by auto
  have j: "j = length array"
  proof (rule ccontr)
    assume "j \<noteq> length array"
    then have jl: "j < length array" using r(2) by simp
    then have "drop j array = array ! j # drop (j + 1) array" by (simp add: Cons_nth_drop_Suc)
    with r(4) have "well_formed_from [1] (level (array ! j) # map level (drop (j + 1) array))"
      by simp
    then have "1 \<le> level (array ! j)" by (auto split: if_splits)
    with r(5) jl show False by simp
  qed
  have "flatten_forest tree' = map entry array"
    using r(3) j Cons by (simp add: entry_def)
  then show ?thesis using first r(1) j by (simp add: buildTreeFlatArray_def or_one_def)
qed

theorem buildTreeFlatArray_flatten_witness:
  "well_formed 1 [\<lparr>content = ''A'', anchor = None, level = 1\<rparr>, \<lparr>content = ''B'', anchor = None, level = 3\<rparr>,
      \<lparr>content = ''C'', anchor = None, level = 3\<rparr>, \<lparr>content = ''D'', anchor = None, level = 1\<rparr>] \<and>
   (\<exists>forest. buildTreeFlatArray [\<lparr>content = ''A'', anchor = None, level = 1\<rparr>, \<lparr>content = ''B'', anchor = None, level = 3\<rparr>,
      \<lparr>content = ''C'', anchor = None, level = 3\<rparr>, \<lparr>content = ''D'', anchor = None, level = 1\<rparr>] None None = Some (Inr (forest, 4)) \<and>
    flatten_forest forest = [(''A'', None), (''B'', None), (''C'', None), (''D'', None)])"
proof -
  have h: "well_formed 1 [\<lparr>content = ''A'', anchor = None, level = 1\<rparr>, \<lparr>content = ''B'', anchor = None, level = 3\<rparr>,
      \<lparr>content = ''C'', anchor = None, level = 3\<rparr>, \<lparr>content = ''D'', anchor = None, level = 1\<rparr>]"
    by (simp add: well_formed_def)
  show ?thesis using h buildTreeFlatArray_flatten[OF h] by (simp add: entry_def numeral_eq_Suc)
qed

subsection \<open>Where the nodes come from\<close>

lemma or_one_gt: "L < l \<Longrightarrow> L < or_one l"
  by (simp add: or_one_def)

lemma builder_inv_empty: "builder_inv array index L [] index"
  by (simp add: builder_inv_def)

lemma located_in_sel:
  "located_in array n \<Longrightarrow> ncontent n < length array \<and> nanchor n = anchor (array ! ncontent n)"
  by (cases n) simp

lemma builder_inv_push:
  assumes "builder_inv array lo L tree index" "index < length array"
    "level (array ! index) = L" "content (array ! index) = index"
  shows "builder_inv array lo L
           (tree @ [Node (content (array ! index)) (anchor (array ! index)) []]) (index + 1)"
  using assms unfolding builder_inv_def
  by (auto simp: less_Suc_eq)

lemma builder_inv_attach:
  assumes inv: "builder_inv array lo L tree index"
    and sub: "builder_inv array index l' sub j" and l': "L < l'"
    and t1: "set_last_nodes tree sub = Inr tree1"
  shows "builder_inv array lo L tree1 j"
proof -
  have ne: "tree \<noteq> []" using t1 by (auto simp: set_last_nodes_def split: if_splits)
  let ?X = "last tree"
  let ?X' = "Node (ncontent ?X) (nanchor ?X) sub"
  have tree1: "tree1 = butlast tree @ [?X']"
    using t1 ne by (simp add: set_last_nodes_def)
  have Xin: "?X \<in> set tree" using ne by simp
  have ij: "index \<le> j" using sub by (simp add: builder_inv_def)
  have X: "level (array ! ncontent ?X) = L" "lo \<le> ncontent ?X" "ncontent ?X < index"
    using inv Xin by (auto simp: builder_inv_def)
  have btw: "\<And>k. ncontent ?X < k \<Longrightarrow> k < j \<Longrightarrow> L < level (array ! k)"
  proof -
    fix k assume k: "ncontent ?X < k" "k < j"
    show "L < level (array ! k)"
    proof (cases "k < index")
      case True
      then show ?thesis using inv ne k by (simp add: builder_inv_def)
    next
      case False
      then have "l' \<le> level (array ! k)" using sub k by (simp add: builder_inv_def)
      then show ?thesis using l' by simp
    qed
  qed
  have cd: "children_deeper array ?X'"
  proof -
    have "\<And>c. c \<in> set sub \<Longrightarrow> deeper_between array (ncontent ?X) (ncontent c)"
    proof -
      fix c assume c: "c \<in> set sub"
      then have cc: "index \<le> ncontent c" "ncontent c < j" "ncontent c < length array"
        using sub by (auto simp: builder_inv_def)
      show "deeper_between array (ncontent ?X) (ncontent c)"
        using cc X btw by (auto simp: deeper_between_def list_all_iff)
    qed
    moreover have "list_all (children_deeper array) sub" using sub by (simp add: builder_inv_def)
    ultimately show ?thesis by (simp add: list_all_iff)
  qed
  have all: "list_all (children_deeper array) tree1"
  proof -
    have "list_all (children_deeper array) tree" using inv by (simp add: builder_inv_def)
    then have "list_all (children_deeper array) (butlast tree)"
      by (auto simp: list_all_iff dest: in_set_butlastD)
    then show ?thesis using cd tree1 by simp
  qed
  have loc: "list_all (located_in array) tree1"
  proof -
    have a: "list_all (located_in array) tree" using inv by (simp add: builder_inv_def)
    then have "list_all (located_in array) (butlast tree)"
      by (auto simp: list_all_iff dest: in_set_butlastD)
    moreover have "located_in array ?X" using a Xin by (simp add: list_all_iff)
    then have "located_in array ?X'"
      using located_in_sel[of array ?X] sub by (simp add: builder_inv_def)
    ultimately show ?thesis using tree1 by simp
  qed
  have nodes1: "\<forall>n \<in> set tree1. level (array ! ncontent n) = L \<and> lo \<le> ncontent n \<and>
          ncontent n < j \<and> ncontent n < length array"
  proof
    fix n assume "n \<in> set tree1"
    then have "n \<in> set (butlast tree) \<or> n = ?X'" using tree1 by auto
    then have "\<exists>m \<in> set tree. ncontent n = ncontent m"
      using Xin by (auto dest: in_set_butlastD)
    then show "level (array ! ncontent n) = L \<and> lo \<le> ncontent n \<and>
          ncontent n < j \<and> ncontent n < length array"
      using inv ij by (auto simp: builder_inv_def)
  qed
  have lows: "\<forall>k. lo \<le> k \<and> k < j \<longrightarrow> L \<le> level (array ! k)"
  proof (intro allI impI)
    fix k assume k: "lo \<le> k \<and> k < j"
    show "L \<le> level (array ! k)"
    proof (cases "k < index")
      case True
      then show ?thesis using inv k by (simp add: builder_inv_def)
    next
      case False
      then have "l' \<le> level (array ! k)" using sub k by (simp add: builder_inv_def)
      then show ?thesis using l' by simp
    qed
  qed
  have lastt: "last tree1 = ?X'" using tree1 by simp
  have "lo \<le> j" using inv ij by (simp add: builder_inv_def)
  then show ?thesis
    unfolding builder_inv_def using all loc nodes1 lows lastt btw by simp
qed

lemma build_loop_inv_aux:
  assumes "build_loop array L tree index = Some y"
  shows "(\<forall>i < length array. content (array ! i) = i) \<longrightarrow>
     (\<forall>lo t j. builder_inv array lo L tree index \<longrightarrow> y = Inr (t, j) \<longrightarrow>
        builder_inv array lo L t j \<and> index \<le> j)"
proof (rule build_loop.raw_induct[where P = "\<lambda>array L tree index y.
     (\<forall>i < length array. content (array ! i) = i) \<longrightarrow>
     (\<forall>lo t j. builder_inv array lo L tree index \<longrightarrow> y = Inr (t, j) \<longrightarrow>
        builder_inv array lo L t j \<and> index \<le> j)", OF _ assms], goal_cases)
  case (1 bl array L tree index y)
  note IH = 1(1) and run0 = 1(2)
  show ?case
  proof (intro impI allI)
    fix lo t j
    assume idx: "\<forall>i < length array. content (array ! i) = i"
      and inv: "builder_inv array lo L tree index" and y: "y = Inr (t, j)"
    show "builder_inv array lo L t j \<and> index \<le> j"
    proof (cases "index < length array")
      case False
      then show ?thesis using run0 inv y by simp
    next
      case True
      let ?c = "array ! index"
      consider (lt) "level ?c < L" | (eq) "level ?c = L" | (gt) "L < level ?c" by linarith
      then show ?thesis
      proof cases
        case lt
        then show ?thesis using run0 inv y True by (simp add: Let_def)
      next
        case eq
        have run: "bl array L (tree @ [Node (content ?c) (anchor ?c) []]) (index + 1) = Some y"
          using run0 True eq by (simp add: Let_def)
        have "content ?c = index" using idx True by simp
        from builder_inv_push[OF inv True eq this]
        have "builder_inv array lo L (tree @ [Node (content ?c) (anchor ?c) []]) (index + 1)" .
        with IH[OF run] idx y show ?thesis by fastforce
      next
        case gt
        have run: "Option.bind (bl array (or_one (level ?c)) [] index)
              (\<lambda>r. case r of Inl e \<Rightarrow> Some (Inl e)
                | Inr (nextLevelTree, startFrom) \<Rightarrow>
                    (case set_last_nodes tree nextLevelTree of Inl e \<Rightarrow> Some (Inl e)
                     | Inr tree' \<Rightarrow> bl array L tree' startFrom)) = Some y"
          using run0 True gt by (simp add: Let_def)
        then obtain r1 where r1: "bl array (or_one (level ?c)) [] index = Some r1"
          and k: "(case r1 of Inl e \<Rightarrow> Some (Inl e)
                | Inr (nextLevelTree, startFrom) \<Rightarrow>
                    (case set_last_nodes tree nextLevelTree of Inl e \<Rightarrow> Some (Inl e)
                     | Inr tree' \<Rightarrow> bl array L tree' startFrom)) = Some y"
          by (auto simp: bind_eq_Some_conv)
        from k y obtain sub j1 tree1 where s: "r1 = Inr (sub, j1)"
          "set_last_nodes tree sub = Inr tree1" "bl array L tree1 j1 = Some y"
          by (auto split: sum.splits prod.splits)
        from IH[OF r1] idx builder_inv_empty s(1)
        have sub: "builder_inv array index (or_one (level ?c)) sub j1 \<and> index \<le> j1" by blast
        from builder_inv_attach[OF inv conjunct1[OF sub] or_one_gt[OF gt] s(2)]
        have "builder_inv array lo L tree1 j1" .
        with IH[OF s(3)] idx y have "builder_inv array lo L t j \<and> j1 \<le> j" by blast
        with sub show ?thesis by simp
      qed
    qed
  qed
qed

lemma set_last_nodes_map:
  "set_last_nodes (map (map_node f) t) (map (map_node f) s) =
   map_sum id (map (map_node f)) (set_last_nodes t s)"
  by (simp add: set_last_nodes_def map_butlast last_map node.map_sel)

lemma build_loop_relabel_aux:
  assumes "build_loop array L tree index = Some y"
  shows "\<forall>src t. array = map (relabel f) src \<longrightarrow> tree = map (map_node f) t \<longrightarrow>
     (\<exists>r. build_loop src L t index = Some r \<and>
          y = map_sum id (map_prod (map (map_node f)) id) r)"
proof (rule build_loop.raw_induct[where P = "\<lambda>array L tree index y.
     \<forall>src t. array = map (relabel f) src \<longrightarrow> tree = map (map_node f) t \<longrightarrow>
     (\<exists>r. build_loop src L t index = Some r \<and>
          y = map_sum id (map_prod (map (map_node f)) id) r)", OF _ assms], goal_cases)
  case (1 bl array L tree index y)
  note IH = 1(1) and run0 = 1(2)
  show ?case
  proof (intro impI allI)
    fix src t
    assume arr: "array = map (relabel f) src" and tree: "tree = map (map_node f) t"
    show "\<exists>r. build_loop src L t index = Some r \<and>
          y = map_sum id (map_prod (map (map_node f)) id) r"
    proof (cases "index < length src")
      case False
      then show ?thesis using run0 arr tree by (simp add: build_loop_end)
    next
      case True
      let ?c = "src ! index"
      have c: "array ! index = relabel f ?c" using arr True by simp
      have lev: "level (array ! index) = level ?c" using c by (simp add: relabel_def)
      have len: "index < length array" using arr True by simp
      consider (lt) "level ?c < L" | (eq) "level ?c = L" | (gt) "L < level ?c" by linarith
      then show ?thesis
      proof cases
        case lt
        then show ?thesis using run0 len lev tree True by (simp add: Let_def build_loop_lt)
      next
        case eq
        have run: "bl array L (tree @ [Node (content (array ! index)) (anchor (array ! index)) []])
                     (index + 1) = Some y"
          using run0 len lev eq by (simp add: Let_def)
        have "tree @ [Node (content (array ! index)) (anchor (array ! index)) []] =
              map (map_node f) (t @ [Node (content ?c) (anchor ?c) []])"
          using tree c by (simp add: relabel_def)
        with IH[OF run] arr obtain r where
          "build_loop src L (t @ [Node (content ?c) (anchor ?c) []]) (index + 1) = Some r"
          "y = map_sum id (map_prod (map (map_node f)) id) r" by blast
        then show ?thesis using build_loop_eq[OF True eq] by simp
      next
        case gt
        have run: "Option.bind (bl array (or_one (level ?c)) [] index)
              (\<lambda>r. case r of Inl e \<Rightarrow> Some (Inl e)
                | Inr (nextLevelTree, startFrom) \<Rightarrow>
                    (case set_last_nodes tree nextLevelTree of Inl e \<Rightarrow> Some (Inl e)
                     | Inr tree' \<Rightarrow> bl array L tree' startFrom)) = Some y"
          using run0 len lev gt by (simp add: Let_def)
        then obtain r1 where r1: "bl array (or_one (level ?c)) [] index = Some r1"
          and k: "(case r1 of Inl e \<Rightarrow> Some (Inl e)
                | Inr (nextLevelTree, startFrom) \<Rightarrow>
                    (case set_last_nodes tree nextLevelTree of Inl e \<Rightarrow> Some (Inl e)
                     | Inr tree' \<Rightarrow> bl array L tree' startFrom)) = Some y"
          by (auto simp: bind_eq_Some_conv)
        from IH[OF r1] arr obtain r1' where r1': "build_loop src (or_one (level ?c)) [] index = Some r1'"
          "r1 = map_sum id (map_prod (map (map_node f)) id) r1'" by fastforce
        have unf: "build_loop src L t index =
            (case r1' of Inl e \<Rightarrow> Some (Inl e)
                | Inr (nextLevelTree, startFrom) \<Rightarrow>
                    (case set_last_nodes t nextLevelTree of Inl e \<Rightarrow> Some (Inl e)
                     | Inr tree' \<Rightarrow> build_loop src L tree' startFrom))"
          using build_loop_gt[OF True gt] r1'(1) by simp
        show ?thesis
        proof (cases r1')
          case (Inl e)
          then show ?thesis using unf k r1'(2) by auto
        next
          case (Inr p)
          obtain sub j1 where p: "p = (sub, j1)" by (cases p)
          have r1eq: "r1 = Inr (map (map_node f) sub, j1)" using r1'(2) Inr p by simp
          have sl: "set_last_nodes tree (map (map_node f) sub) =
                    map_sum id (map (map_node f)) (set_last_nodes t sub)"
            using tree set_last_nodes_map by simp
          show ?thesis
          proof (cases "set_last_nodes t sub")
            case (Inl e)
            then show ?thesis using unf k r1eq sl \<open>r1' = Inr p\<close> p by auto
          next
            case (Inr tree1)
            have "bl array L (map (map_node f) tree1) j1 = Some y"
              using k r1eq sl Inr by simp
            with IH[OF this] arr obtain r where "build_loop src L tree1 j1 = Some r"
              "y = map_sum id (map_prod (map (map_node f)) id) r" by blast
            then show ?thesis using unf \<open>r1' = Inr p\<close> p Inr by simp
          qed
        qed
      qed
    qed
  qed
qed

lemma indexed_relabel: "map (relabel (\<lambda>i. content (array ! i))) (indexed array) = array"
  by (rule nth_equalityI) (simp_all add: indexed_def relabel_def)

lemma indexed_content: "\<forall>i < length (indexed array). content (indexed array ! i) = i"
  by (simp add: indexed_def)

lemma deeper_between_indexed: "deeper_between (indexed array) i j = deeper_between array i j"
  by (auto simp: deeper_between_def indexed_def list_all_iff)

lemma located_in_indexed: "located_in (indexed array) n = located_in array n"
  by (induction array n rule: located_in.induct)
     (auto simp: indexed_def list_all_iff)

lemma children_deeper_indexed: "children_deeper (indexed array) n = children_deeper array n"
  by (induction array n rule: children_deeper.induct)
     (auto simp: deeper_between_indexed list_all_iff)

text \<open>
  C8. Whenever the builder returns a forest, the forest is the image of the forest built
  from the same list with every heading's content replaced by its position; in that
  forest, each child of each node comes from a later position, and every heading after
  the node's own up to and including the child's is strictly deeper than the node's
  heading: the children are strictly deeper, and no heading at or below the node's level
  lies between the node and its children.
\<close>

theorem buildTreeFlatArray_children_deeper:
  assumes "buildTreeFlatArray array requestedLevel startFrom = Some (Inr (forest, j))"
  shows "\<exists>located.
           buildTreeFlatArray (indexed array) requestedLevel startFrom = Some (Inr (located, j)) \<and>
           forest = map (map_node (\<lambda>i. content (array ! i))) located \<and>
           list_all (children_deeper array) located"
proof -
  let ?L = "or_one (case requestedLevel of None \<Rightarrow> 0 | Some l \<Rightarrow> l)"
  let ?i = "case startFrom of None \<Rightarrow> 0 | Some i \<Rightarrow> i"
  have run: "build_loop array ?L [] ?i = Some (Inr (forest, j))"
    using assms by (simp add: buildTreeFlatArray_def)
  from build_loop_relabel_aux[OF run, of "\<lambda>i. content (array ! i)"] indexed_relabel[of array]
  obtain r where r: "build_loop (indexed array) ?L [] ?i = Some r"
    "Inr (forest, j) = map_sum id (map_prod (map (map_node (\<lambda>i. content (array ! i)))) id) r"
    by (metis list.simps(8))
  from r(2) obtain located where l: "r = Inr (located, j)"
    "forest = map (map_node (\<lambda>i. content (array ! i))) located"
    by (cases r) auto
  from build_loop_inv_aux[OF r(1)] indexed_content[of array] builder_inv_empty l(1)
  have "builder_inv (indexed array) ?i ?L located j" by blast
  then have "list_all (children_deeper array) located"
    by (simp add: builder_inv_def children_deeper_indexed list_all_iff)
  then show ?thesis using r(1) l by (simp add: buildTreeFlatArray_def)
qed

theorem buildTreeFlatArray_children_deeper_witness:
  "\<exists>located.
     buildTreeFlatArray (indexed [\<lparr>content = ''A'', anchor = None, level = 1\<rparr>,
        \<lparr>content = ''B'', anchor = None, level = 3\<rparr>, \<lparr>content = ''C'', anchor = None, level = 2\<rparr>])
        None None = Some (Inr (located, 3)) \<and>
     [Node ''A'' None [Node ''C'' None []]] =
       map (map_node (\<lambda>i. content ([\<lparr>content = ''A'', anchor = None, level = 1\<rparr>,
        \<lparr>content = ''B'', anchor = None, level = 3\<rparr>, \<lparr>content = ''C'', anchor = None, level = 2\<rparr>] ! i))) located \<and>
     list_all (children_deeper [\<lparr>content = ''A'', anchor = None, level = 1\<rparr>,
        \<lparr>content = ''B'', anchor = None, level = 3\<rparr>, \<lparr>content = ''C'', anchor = None, level = (2::int)\<rparr>]) located"
proof -
  have h: "buildTreeFlatArray [\<lparr>content = ''A'', anchor = None, level = 1\<rparr>,
        \<lparr>content = ''B'', anchor = None, level = 3\<rparr>, \<lparr>content = ''C'', anchor = None, level = 2\<rparr>]
        None None = Some (Inr ([Node ''A'' None [Node ''C'' None []]], 3))"
    by (simp add: buildTreeFlatArray_def or_one_def build_loop.simps set_last_nodes_def)
  from buildTreeFlatArray_children_deeper[OF h] show ?thesis .
qed

subsection \<open>Headings deeper than level 3 are left out of the outline\<close>

lemma retained_levels: "list_all (\<lambda>h. level h \<le> 3) (retained toc)"
  by (simp add: retained_def list_all_iff)

lemma buildTreeFlatArray_located:
  assumes "buildTreeFlatArray array requestedLevel startFrom = Some (Inr (forest, j))"
  shows "\<exists>located. forest = map (map_node (\<lambda>i. content (array ! i))) located \<and>
           list_all (located_in array) located"
proof -
  let ?L = "or_one (case requestedLevel of None \<Rightarrow> 0 | Some l \<Rightarrow> l)"
  let ?i = "case startFrom of None \<Rightarrow> 0 | Some i \<Rightarrow> i"
  have run: "build_loop array ?L [] ?i = Some (Inr (forest, j))"
    using assms by (simp add: buildTreeFlatArray_def)
  from build_loop_relabel_aux[OF run, of "\<lambda>i. content (array ! i)"] indexed_relabel[of array]
  obtain r where r: "build_loop (indexed array) ?L [] ?i = Some r"
    "Inr (forest, j) = map_sum id (map_prod (map (map_node (\<lambda>i. content (array ! i)))) id) r"
    by (metis list.simps(8))
  from r(2) obtain located where l: "r = Inr (located, j)"
    "forest = map (map_node (\<lambda>i. content (array ! i))) located"
    by (cases r) auto
  from build_loop_inv_aux[OF r(1)] indexed_content[of array] builder_inv_empty l(1)
  have "builder_inv (indexed array) ?i ?L located j" by blast
  then have "list_all (located_in array) located"
    by (simp add: builder_inv_def located_in_indexed list_all_iff)
  then show ?thesis using l by blast
qed

text \<open>
  C6. When \<^verbatim>\<open>parseTree\<close> returns a tree, every node of it is made from a record that was
  retained, with that record's content and anchor, and every retained record has a level
  of at most 3; and any other token stream with the same retained records gives the same
  tree: the records above level 3 play no part in the nesting.
\<close>

theorem parseTree_depth_filter:
  assumes "heading_tags tokens"
    and "tocArray mdRemove kebabCase None tokens = Inr toc"
    and "parseTree mdRemove kebabCase tokens = Some (Inr tree)"
  shows "(\<exists>located. tree = map (map_node (\<lambda>i. content (retained toc ! i))) located \<and>
            list_all (located_in (retained toc)) located) \<and>
         list_all (\<lambda>h. level h \<le> 3) (retained toc) \<and>
         (\<forall>tokens' toc'. heading_tags tokens' \<longrightarrow>
            tocArray mdRemove kebabCase None tokens' = Inr toc' \<longrightarrow>
            retained toc' = retained toc \<longrightarrow>
            parseTree mdRemove kebabCase tokens' = Some (Inr tree))"
proof -
  from assms(2,3) obtain j where
    b: "buildTreeFlatArray (retained toc) None None = Some (Inr (tree, j))"
    by (auto simp: parseTree_def split: option.splits sum.splits)
  have "\<And>tokens' toc'. tocArray mdRemove kebabCase None tokens' = Inr toc' \<Longrightarrow>
            retained toc' = retained toc \<Longrightarrow>
            parseTree mdRemove kebabCase tokens' = Some (Inr tree)"
    using b by (simp add: parseTree_def)
  with buildTreeFlatArray_located[OF b] retained_levels[of toc] show ?thesis by blast
qed

theorem parseTree_depth_filter_witness:
  "parseTree (\<lambda>s. s) (\<lambda>s. s)
     [\<lparr>ttype = ''heading_open'', ttag = ''h1'', tcontent = [], tchildren = None\<rparr>,
      \<lparr>ttype = ''inline'', ttag = [], tcontent = ''A'',
        tchildren = Some [\<lparr>itype = ''text'', icontent = ''A''\<rparr>]\<rparr>,
      \<lparr>ttype = ''heading_close'', ttag = ''h1'', tcontent = [], tchildren = None\<rparr>,
      \<lparr>ttype = ''heading_open'', ttag = ''h5'', tcontent = [], tchildren = None\<rparr>,
      \<lparr>ttype = ''inline'', ttag = [], tcontent = ''B'',
        tchildren = Some [\<lparr>itype = ''text'', icontent = ''B''\<rparr>]\<rparr>,
      \<lparr>ttype = ''heading_close'', ttag = ''h5'', tcontent = [], tchildren = None\<rparr>,
      \<lparr>ttype = ''heading_open'', ttag = ''h2'', tcontent = [], tchildren = None\<rparr>,
      \<lparr>ttype = ''inline'', ttag = [], tcontent = ''C'',
        tchildren = Some [\<lparr>itype = ''text'', icontent = ''C''\<rparr>]\<rparr>,
      \<lparr>ttype = ''heading_close'', ttag = ''h2'', tcontent = [], tchildren = None\<rparr>] =
     Some (Inr [Node ''A'' (Some ''A'') [Node ''C'' (Some ''C'') []]]) \<and>
   (\<exists>located.
      [Node ''A'' (Some ''A'') [Node ''C'' (Some ''C'') []]] =
        map (map_node (\<lambda>i. content ([\<lparr>content = ''A'', anchor = Some ''A'', level = 1\<rparr>,
               \<lparr>content = ''C'', anchor = Some ''C'', level = 2\<rparr>] ! i))) located \<and>
      list_all (located_in [\<lparr>content = ''A'', anchor = Some ''A'', level = 1\<rparr>,
               \<lparr>content = ''C'', anchor = Some ''C'', level = 2\<rparr>]) located)"
proof -
  let ?tokens = "[\<lparr>ttype = ''heading_open'', ttag = ''h1'', tcontent = [], tchildren = None\<rparr>,
      \<lparr>ttype = ''inline'', ttag = [], tcontent = ''A'',
        tchildren = Some [\<lparr>itype = ''text'', icontent = ''A''\<rparr>]\<rparr>,
      \<lparr>ttype = ''heading_close'', ttag = ''h1'', tcontent = [], tchildren = None\<rparr>,
      \<lparr>ttype = ''heading_open'', ttag = ''h5'', tcontent = [], tchildren = None\<rparr>,
      \<lparr>ttype = ''inline'', ttag = [], tcontent = ''B'',
        tchildren = Some [\<lparr>itype = ''text'', icontent = ''B''\<rparr>]\<rparr>,
      \<lparr>ttype = ''heading_close'', ttag = ''h5'', tcontent = [], tchildren = None\<rparr>,
      \<lparr>ttype = ''heading_open'', ttag = ''h2'', tcontent = [], tchildren = None\<rparr>,
      \<lparr>ttype = ''inline'', ttag = [], tcontent = ''C'',
        tchildren = Some [\<lparr>itype = ''text'', icontent = ''C''\<rparr>]\<rparr>,
      \<lparr>ttype = ''heading_close'', ttag = ''h2'', tcontent = [], tchildren = None\<rparr>]"
  let ?toc = "[\<lparr>content = ''A'', anchor = Some ''A'', level = 1\<rparr>,
      \<lparr>content = ''B'', anchor = Some ''B'', level = 5\<rparr>,
      \<lparr>content = ''C'', anchor = Some ''C'', level = 2\<rparr>]"
  have h1: "heading_tags ?tokens"
    by (simp add: heading_tags_def is_digit_def digits_def)
  have h2: "tocArray (\<lambda>s. s) (\<lambda>s. s) None ?tokens = Inr ?toc"
    by (simp add: heading_record_def heading_level_def digit_value_def)
  have h3: "parseTree (\<lambda>s. s) (\<lambda>s. s) ?tokens =
      Some (Inr [Node ''A'' (Some ''A'') [Node ''C'' (Some ''C'') []]])"
    unfolding parseTree_def h2
    by (simp add: retained_def buildTreeFlatArray_def or_one_def build_loop.simps
        set_last_nodes_def)
  from parseTree_depth_filter[OF h1 h2 h3] h3 show ?thesis
    by (simp add: retained_def)
qed

section \<open>Properties of the meta data and of the video links\<close>

subsection \<open>The matcher\<close>

lemma matcher_star_class_Nil:
  "matcher ic (Star (Class negated cs)) [] caps k = k [] caps"
  by (subst matcher.simps(7)) simp

lemma matcher_star_class_Cons:
  "matcher ic (Star (Class negated cs)) (x # xs) caps k =
     (if in_class ic negated cs x then
        (case matcher ic (Star (Class negated cs)) xs caps k of
           Some r \<Rightarrow> Some r
         | None \<Rightarrow> k (x # xs) caps)
      else k (x # xs) caps)"
  by (subst matcher.simps(7)) (simp add: reset_def)

lemmas regex_eval = regexp_exec_def first_match.simps lit_def Plus_def dot_def word_def digit_def
  matcher_star_class_Cons matcher_star_class_Nil in_class_def same_char_def
  reset_def to_lower_def to_upper_def lower_letters_def upper_letters_def digits_def

lemma reset_no_groups: "groups_of r = [] \<Longrightarrow> reset r caps = caps"
  by (simp add: reset_def)

lemma matcher_suffix:
  "groups_of r = [] \<Longrightarrow> matcher ic r s caps k = Some res \<Longrightarrow>
   \<exists>u rest. s = u @ rest \<and> k rest caps = Some res"
proof (induction ic r s caps k arbitrary: res rule: matcher.induct)
  case (1 ic c s caps k)
  then show ?case by (cases s) (auto split: if_splits intro: exI[of _ "[_]"])
next
  case (2 ic negated cs s caps k)
  then show ?case by (cases s) (auto split: if_splits intro: exI[of _ "[_]"])
next
  case (3 ic s caps k)
  then show ?case by auto
next
  case (4 ic a b s caps k)
  from 4(3) have g: "groups_of a = []" "groups_of b = []" by simp_all
  from 4(4) have "matcher ic a s caps (\<lambda>s' caps'. matcher ic b s' caps' k) = Some res" by simp
  from 4(2)[OF g(1) this] obtain u1 r1 where
    r1: "s = u1 @ r1" "matcher ic b r1 caps k = Some res" by blast
  from 4(1)[OF g(2) r1(2)] obtain u2 rest where "r1 = u2 @ rest" "k rest caps = Some res" by blast
  with r1(1) have "s = (u1 @ u2) @ rest \<and> k rest caps = Some res" by simp
  then show ?case by blast
next
  case (5 ic a b s caps k)
  from 5(3) have g: "groups_of a = []" "groups_of b = []" by simp_all
  show ?case
  proof (cases "matcher ic a s caps k")
    case None
    with 5(4) have "matcher ic b s caps k = Some res" by simp
    from 5(2)[OF None g(2) this] show ?thesis .
  next
    case (Some r)
    with 5(4) have "matcher ic a s caps k = Some res" by simp
    from 5(1)[OF g(1) this] show ?thesis .
  qed
next
  case (6 ic a s caps k)
  from 6(2) have g: "groups_of a = []" by simp
  let ?k = "\<lambda>s' caps'. if length s' < length s then k s' caps' else None"
  show ?case
  proof (cases "matcher ic a s (reset a caps) ?k")
    case None
    with 6(3) have "s = [] @ s \<and> k s caps = Some res" by simp
    then show ?thesis by blast
  next
    case (Some r)
    with 6(3) have "matcher ic a s (reset a caps) ?k = Some res" by simp
    from 6(1)[OF g this] show ?thesis by (auto simp: reset_no_groups g split: if_splits)
  qed
next
  case (7 ic a s caps k)
  from 7(3) have g: "groups_of a = []" by simp
  let ?k = "\<lambda>s' caps'. if length s' < length s then matcher ic (Star a) s' caps' k else None"
  from 7(4) have m: "(case matcher ic a s (reset a caps) ?k of Some r \<Rightarrow> Some r
      | None \<Rightarrow> k s caps) = Some res"
    by (subst (asm) matcher.simps(7))
  show ?case
  proof (cases "matcher ic a s (reset a caps) ?k")
    case None
    with m have "s = [] @ s \<and> k s caps = Some res" by simp
    then show ?thesis by blast
  next
    case (Some r)
    with m have "matcher ic a s (reset a caps) ?k = Some res" by simp
    from 7(2)[OF g this] obtain u1 r1 where
      r1: "s = u1 @ r1" "length r1 < length s" "matcher ic (Star a) r1 caps k = Some res"
      by (auto simp: reset_no_groups g split: if_splits)
    from 7(1)[OF r1(2) 7(3) r1(3)] obtain u2 rest where
      "r1 = u2 @ rest" "k rest caps = Some res" by blast
    with r1(1) have "s = (u1 @ u2) @ rest \<and> k rest caps = Some res" by simp
    then show ?thesis by blast
  qed
next
  case (8 ic n a s caps k)
  then show ?case by simp
next
  case (9 ic s caps k)
  then have "s = [] @ s \<and> k s caps = Some res" by (auto split: if_splits)
  then show ?case by blast
qed

lemma matcher_no_groups:
  assumes "groups_of r = []" "matcher ic r s caps k = Some res"
  shows "\<exists>rest. k rest caps = Some res \<and> length rest \<le> length s"
proof -
  from matcher_suffix[OF assms] obtain u rest where "s = u @ rest" "k rest caps = Some res"
    by blast
  then have "k rest caps = Some res \<and> length rest \<le> length s" by simp
  then show ?thesis by blast
qed

lemma matcher_star_class:
  "matcher ic (Star (Class negated cs)) s caps k = Some res \<Longrightarrow>
   \<exists>u rest. s = u @ rest \<and> (\<forall>x \<in> set u. in_class ic negated cs x) \<and> k rest caps = Some res"
proof (induction s)
  case Nil
  then show ?case by (simp add: matcher_star_class_Nil)
next
  case (Cons x xs)
  show ?case
  proof (cases "in_class ic negated cs x \<and>
      matcher ic (Star (Class negated cs)) xs caps k = Some res")
    case True
    with Cons.IH obtain u rest where "xs = u @ rest"
      "\<forall>x \<in> set u. in_class ic negated cs x" "k rest caps = Some res" by blast
    with True have "x # xs = (x # u) @ rest \<and> (\<forall>y \<in> set (x # u). in_class ic negated cs y) \<and>
      k rest caps = Some res" by simp
    then show ?thesis by blast
  next
    case False
    with Cons.prems have "k (x # xs) caps = Some res"
      by (auto simp: matcher_star_class_Cons split: if_splits option.splits)
    then have "x # xs = [] @ (x # xs) \<and> (\<forall>y \<in> set []. in_class ic negated cs y) \<and>
      k (x # xs) caps = Some res" by simp
    then show ?thesis by blast
  qed
qed

lemma matcher_plus_class:
  assumes "matcher ic (Plus (Class negated cs)) s caps k = Some res"
  shows "\<exists>u rest. s = u @ rest \<and> u \<noteq> [] \<and> (\<forall>x \<in> set u. in_class ic negated cs x) \<and>
           k rest caps = Some res"
proof -
  from assms obtain x xs where s: "s = x # xs" "in_class ic negated cs x"
    "matcher ic (Star (Class negated cs)) xs caps k = Some res"
    by (auto simp: Plus_def split: list.splits if_splits)
  from matcher_star_class[OF s(3)] obtain u rest where "xs = u @ rest"
    "\<forall>x \<in> set u. in_class ic negated cs x" "k rest caps = Some res" by blast
  with s(1,2) have "s = (x # u) @ rest \<and> x # u \<noteq> [] \<and>
    (\<forall>y \<in> set (x # u). in_class ic negated cs y) \<and> k rest caps = Some res" by simp
  then show ?thesis by blast
qed

lemma contains_start: "contains pat (pat @ s)"
  by (subst contains.simps) simp

lemma contains_append: "contains pat s \<Longrightarrow> contains pat (u @ s)"
proof (induction u)
  case Nil
  then show ?case by simp
next
  case (Cons x u)
  then have "contains pat (u @ s)" by simp
  then show ?case by (subst contains.simps) simp
qed

lemma matcher_close:
  "matcher False (lit ''-->'') s caps k = Some res \<Longrightarrow>
   \<exists>rest. s = ''-->'' @ rest \<and> k rest caps = Some res"
  by (auto simp: lit_def same_char_def split: list.splits if_splits)

lemma matcher_close_None:
  "\<not> contains ''-->'' s \<Longrightarrow> matcher False (lit ''-->'') s caps k = None"
proof (rule ccontr)
  assume n: "\<not> contains ''-->'' s" and "matcher False (lit ''-->'') s caps k \<noteq> None"
  then obtain res where "matcher False (lit ''-->'') s caps k = Some res" by auto
  from matcher_close[OF this] obtain rest where "s = ''-->'' @ rest" by blast
  with contains_start[of "''-->''" rest] n show False by simp
qed

lemma matcher_star_class_None:
  "(\<And>u rest c. s = u @ rest \<Longrightarrow> k rest c = None) \<Longrightarrow>
   matcher ic (Star (Class negated cs)) s caps k = None"
proof (rule ccontr)
  assume a: "\<And>u rest c. s = u @ rest \<Longrightarrow> k rest c = None"
    and "matcher ic (Star (Class negated cs)) s caps k \<noteq> None"
  then obtain res where "matcher ic (Star (Class negated cs)) s caps k = Some res" by auto
  from matcher_star_class[OF this] a show False by fastforce
qed

lemma matcher_open:
  "matcher False (lit ''<!--'') s caps k = Some res \<Longrightarrow>
   \<exists>rest. s = ''<!--'' @ rest \<and> k rest caps = Some res"
  by (auto simp: lit_def same_char_def split: list.splits if_splits)

lemma matcher_opt_space:
  "matcher False (Opt (Lit CHR '' '')) s caps k = Some res \<Longrightarrow>
   \<exists>sp rest. s = sp @ rest \<and> (sp = [] \<or> sp = '' '') \<and> k rest caps = Some res"
proof (cases "\<exists>xs. s = CHR '' '' # xs \<and> k xs caps = Some res")
  case True
  then obtain xs where "s = '' '' @ xs \<and> ('' '' = [] \<or> '' '' = '' '') \<and> k xs caps = Some res"
    by auto
  then show ?thesis by blast
next
  case False
  assume "matcher False (Opt (Lit CHR '' '')) s caps k = Some res"
  with False have "s = [] @ s \<and> k s caps = Some res"
    by (cases s) (auto simp: same_char_def reset_def split: if_splits option.splits)
  then show ?thesis by blast
qed

lemma matcher_colon:
  "matcher False (Lit CHR '':'') s caps k = Some res \<Longrightarrow>
   \<exists>rest. s = '':'' @ rest \<and> k rest caps = Some res"
  by (auto simp: same_char_def split: list.splits if_splits)

lemma not_contains_suffix: "\<not> contains pat (u @ s) \<Longrightarrow> \<not> contains pat s"
  using contains_append by blast

subsection \<open>Every match of the comment pattern\<close>

lemma to_lower_letter:
  "in_class False False (lower_letters @ upper_letters) x \<Longrightarrow> is_lower_letter (to_lower x)"
  unfolding in_class_def is_lower_letter_def to_lower_def lower_letters_def upper_letters_def
  by auto

lemma trimmed_trim: "trimmed (trim v)"
proof -
  define w where "w = dropWhile is_space v"
  define z where "z = dropWhile is_space (rev w)"
  have t: "trim v = rev z" by (simp add: trim_def z_def w_def)
  show ?thesis
  proof (cases "z = []")
    case True
    then show ?thesis by (simp add: trimmed_def t)
  next
    case False
    have hz: "\<not> is_space (hd z)" using False unfolding z_def by (rule hd_dropWhile)
    have w: "w \<noteq> []" using False unfolding z_def by (cases w) auto
    have hw: "\<not> is_space (hd w)" using w unfolding w_def by (rule hd_dropWhile)
    obtain u where u: "rev w = u @ z" unfolding z_def by (metis takeWhile_dropWhile_id)
    have "last z = last (u @ z)" using False by simp
    also have "\<dots> = last (rev w)" using u by simp
    also have "\<dots> = hd w" using w by (simp add: last_rev)
    finally have "hd (rev z) = hd w" using False by (simp add: hd_rev)
    moreover have "last (rev z) = hd z" using False by (simp add: last_rev)
    ultimately show ?thesis using hz hw False by (simp add: trimmed_def t)
  qed
qed

lemma commentMeta_pattern:
  "pattern commentMeta =
     Seq (lit ''<!--'') (Seq (Opt (Lit CHR '' ''))
       (Seq (Group 1 (Plus (Class False (lower_letters @ upper_letters))))
         (Seq (Lit CHR '':'') (Seq (Group 2 (Star dot)) (lit ''-->'')))))"
  by (simp add: commentMeta_def)

lemma commentMeta_matcher:
  assumes "matcher False (pattern commentMeta) s Map.empty (\<lambda>s' caps'. Some (s', caps')) =
           Some (rest, c)"
  shows "length rest < length s \<and>
         (\<exists>k v. c 1 = Some k \<and> c 2 = Some v \<and> k \<noteq> [] \<and>
            (\<forall>x \<in> set k. in_class False False (lower_letters @ upper_letters) x))"
proof -
  let ?k5 = "\<lambda>s' caps'. matcher False (lit ''-->'') s' caps' (\<lambda>s' caps'. Some (s', caps'))"
  let ?k4 = "\<lambda>s' caps'. matcher False (Group 2 (Star dot)) s' caps' ?k5"
  let ?k3 = "\<lambda>s' caps'. matcher False (Lit CHR '':'') s' caps' ?k4"
  let ?k2 = "\<lambda>s' caps'. matcher False
      (Group 1 (Plus (Class False (lower_letters @ upper_letters)))) s' caps' ?k3"
  let ?k1 = "\<lambda>s' caps'. matcher False (Opt (Lit CHR '' '')) s' caps' ?k2"
  have "matcher False (lit ''<!--'') s Map.empty ?k1 = Some (rest, c)"
    using assms unfolding commentMeta_pattern by simp
  then obtain x xs where s: "s = x # xs"
    and "matcher False (seqs [Lit CHR ''!'', Lit CHR ''-'', Lit CHR ''-'']) xs Map.empty ?k1 =
         Some (rest, c)"
    by (auto simp: lit_def split: list.splits if_splits)
  from matcher_no_groups[OF _ this(2)] obtain s1 where
    s1: "?k1 s1 Map.empty = Some (rest, c)" "length s1 \<le> length xs" by auto
  from matcher_no_groups[OF _ s1(1)] obtain s2 where
    s2: "?k2 s2 Map.empty = Some (rest, c)" "length s2 \<le> length s1" by auto
  from s2(1) have "matcher False (Plus (Class False (lower_letters @ upper_letters))) s2 Map.empty
      (\<lambda>s' caps'. ?k3 s' (caps'(1 \<mapsto> take (length s2 - length s') s2))) = Some (rest, c)"
    by simp
  from matcher_plus_class[OF this] obtain u s3 where
    u: "s2 = u @ s3" "u \<noteq> []"
      "\<forall>x \<in> set u. in_class False False (lower_letters @ upper_letters) x" and
    s3: "?k3 s3 [1 \<mapsto> take (length s2 - length s3) s2] = Some (rest, c)" by blast
  have tk: "take (length s2 - length s3) s2 = u" using u(1) by simp
  from matcher_no_groups[OF _ s3[unfolded tk]] obtain s4 where
    s4: "?k4 s4 [1 \<mapsto> u] = Some (rest, c)" "length s4 \<le> length s3" by auto
  from s4(1) have "matcher False (Star (Class True [CHR 0x0A, CHR 0x0D])) s4 [1 \<mapsto> u]
      (\<lambda>s' caps'. ?k5 s' (caps'(2 \<mapsto> take (length s4 - length s') s4))) = Some (rest, c)"
    by (simp add: dot_def)
  from matcher_star_class[OF this] obtain v s5 where
    s5: "?k5 s5 [1 \<mapsto> u, 2 \<mapsto> take (length s4 - length s5) s4] = Some (rest, c)"
      "s4 = v @ s5" by blast
  from matcher_no_groups[OF _ s5(1)] obtain s6 where
    s6: "Some (s6, [1 \<mapsto> u, 2 \<mapsto> take (length s4 - length s5) s4]) = Some (rest, c)"
      "length s6 \<le> length s5"
    by (auto simp: lit_def)
  from s6(1) have c: "c = [1 \<mapsto> u, 2 \<mapsto> take (length s4 - length s5) s4]" and r: "rest = s6"
    by simp_all
  have "length rest < length s"
    using r s6(2) s5(2) s4(2) u(1) s2(2) s1(2) s by simp
  moreover have "c 1 = Some u" "c 2 = Some (take (length s4 - length s5) s4)"
    using c by simp_all
  ultimately show ?thesis using u(2,3) by blast
qed

lemma commentMeta_directive:
  assumes "matcher False (pattern commentMeta) s Map.empty (\<lambda>s' caps'. Some (s', caps')) =
           Some (rest, c)"
  shows "\<exists>d name v. s = d @ rest \<and> directive d name v \<and> c 1 = Some name \<and> c 2 = Some v"
proof -
  let ?k5 = "\<lambda>s' caps'. matcher False (lit ''-->'') s' caps' (\<lambda>s' caps'. Some (s', caps'))"
  let ?k4 = "\<lambda>s' caps'. matcher False (Group 2 (Star dot)) s' caps' ?k5"
  let ?k3 = "\<lambda>s' caps'. matcher False (Lit CHR '':'') s' caps' ?k4"
  let ?k2 = "\<lambda>s' caps'. matcher False
      (Group 1 (Plus (Class False (lower_letters @ upper_letters)))) s' caps' ?k3"
  let ?k1 = "\<lambda>s' caps'. matcher False (Opt (Lit CHR '' '')) s' caps' ?k2"
  have "matcher False (lit ''<!--'') s Map.empty ?k1 = Some (rest, c)"
    using assms unfolding commentMeta_pattern by simp
  from matcher_open[OF this] obtain s1 where
    s1: "s = ''<!--'' @ s1" "?k1 s1 Map.empty = Some (rest, c)" by blast
  from matcher_opt_space[OF s1(2)] obtain sp s2 where
    s2: "s1 = sp @ s2" "sp = [] \<or> sp = '' ''" "?k2 s2 Map.empty = Some (rest, c)" by blast
  from s2(3) have "matcher False (Plus (Class False (lower_letters @ upper_letters))) s2 Map.empty
      (\<lambda>s' caps'. ?k3 s' (caps'(1 \<mapsto> take (length s2 - length s') s2))) = Some (rest, c)"
    by simp
  from matcher_plus_class[OF this] obtain u s3 where
    u: "s2 = u @ s3" "u \<noteq> []"
      "\<forall>x \<in> set u. in_class False False (lower_letters @ upper_letters) x" and
    s3: "?k3 s3 [1 \<mapsto> take (length s2 - length s3) s2] = Some (rest, c)" by blast
  have tk: "take (length s2 - length s3) s2 = u" using u(1) by simp
  from matcher_colon[OF s3[unfolded tk]] obtain s4 where
    s4: "s3 = '':'' @ s4" "?k4 s4 [1 \<mapsto> u] = Some (rest, c)" by blast
  from s4(2) have "matcher False (Star (Class True [CHR 0x0A, CHR 0x0D])) s4 [1 \<mapsto> u]
      (\<lambda>s' caps'. ?k5 s' (caps'(2 \<mapsto> take (length s4 - length s') s4))) = Some (rest, c)"
    by (simp add: dot_def)
  from matcher_star_class[OF this] obtain v s5 where
    s5: "s4 = v @ s5" "\<forall>x \<in> set v. in_class False True [CHR 0x0A, CHR 0x0D] x"
      "?k5 s5 [1 \<mapsto> u, 2 \<mapsto> take (length s4 - length s5) s4] = Some (rest, c)"
    by blast
  have tv: "take (length s4 - length s5) s4 = v" using s5(1) by simp
  from matcher_close[OF s5(3)[unfolded tv]] obtain s6 where
    s6: "s5 = ''-->'' @ s6" "Some (s6, [1 \<mapsto> u, 2 \<mapsto> v]) = Some (rest, c)" by blast
  from s6(2) have c: "c = [1 \<mapsto> u, 2 \<mapsto> v]" and r: "rest = s6" by simp_all
  let ?d = "''<!--'' @ sp @ u @ '':'' @ v @ ''-->''"
  have "s = ?d @ rest" using s1(1) s2(1) u(1) s4(1) s5(1) s6(1) r by simp
  moreover have "directive ?d u v"
    using s2(2) u(2,3) s5(2)
    by (auto simp: directive_def is_letter_def line_terminator_def in_class_def list_all_iff
        list_ex_iff)
  moreover have "c 1 = Some u" "c 2 = Some v" using c by simp_all
  ultimately show ?thesis by blast
qed

lemma first_match_Some:
  "first_match ic r s i = Some (j, n, caps) \<Longrightarrow>
   \<exists>t rest. matcher ic r t Map.empty (\<lambda>s' caps'. Some (s', caps')) = Some (rest, caps) \<and>
      n = length t - length rest \<and> i \<le> j \<and> j + length t = i + length s"
proof (induction s arbitrary: i)
  case Nil
  then show ?case
    by (subst (asm) first_match.simps) (auto split: option.splits)
next
  case (Cons x xs)
  show ?case
  proof (cases "matcher ic r (x # xs) Map.empty (\<lambda>s' caps'. Some (s', caps'))")
    case None
    with Cons.prems have "first_match ic r xs (Suc i) = Some (j, n, caps)"
      by (subst (asm) first_match.simps) simp
    from Cons.IH[OF this] obtain t rest where
      "matcher ic r t Map.empty (\<lambda>s' caps'. Some (s', caps')) = Some (rest, caps)"
      "n = length t - length rest" "Suc i \<le> j" "j + length t = Suc i + length xs" by blast
    then have "matcher ic r t Map.empty (\<lambda>s' caps'. Some (s', caps')) = Some (rest, caps) \<and>
      n = length t - length rest \<and> i \<le> j \<and> j + length t = i + length (x # xs)" by simp
    then show ?thesis by blast
  next
    case (Some p)
    obtain rest c where p: "p = (rest, c)" by (cases p)
    from Cons.prems Some p have "j = i \<and> n = length (x # xs) - length rest \<and> caps = c"
      by (subst (asm) first_match.simps) simp
    with Some p show ?thesis by blast
  qed
qed

lemma first_match_drop:
  "first_match ic r s i = Some (j, n, caps) \<Longrightarrow>
   \<exists>rest. matcher ic r (drop (j - i) s) Map.empty (\<lambda>s' caps'. Some (s', caps')) = Some (rest, caps) \<and>
      n = length (drop (j - i) s) - length rest \<and> i \<le> j \<and> j - i \<le> length s"
proof (induction s arbitrary: i)
  case Nil
  then show ?case
    by (subst (asm) first_match.simps) (auto split: option.splits)
next
  case (Cons x xs)
  show ?case
  proof (cases "matcher ic r (x # xs) Map.empty (\<lambda>s' caps'. Some (s', caps'))")
    case None
    with Cons.prems have "first_match ic r xs (Suc i) = Some (j, n, caps)"
      by (subst (asm) first_match.simps) simp
    from Cons.IH[OF this] obtain rest where
      r: "matcher ic r (drop (j - Suc i) xs) Map.empty (\<lambda>s' caps'. Some (s', caps')) = Some (rest, caps)"
      "n = length (drop (j - Suc i) xs) - length rest" "Suc i \<le> j" "j - Suc i \<le> length xs" by blast
    have "drop (j - i) (x # xs) = drop (j - Suc i) xs" using r(3) by (simp add: drop_Cons')
    with r show ?thesis by auto
  next
    case (Some p)
    obtain rest c where p: "p = (rest, c)" by (cases p)
    from Cons.prems Some p have "j = i \<and> n = length (x # xs) - length rest \<and> caps = c"
      by (subst (asm) first_match.simps) simp
    with Some p show ?thesis by auto
  qed
qed

lemma commentMeta_exec:
  assumes "regexp_exec commentMeta s i = Some (m, j)"
  shows "i < j \<and> j \<le> length s \<and>
         (\<exists>k v. m ! 1 = Some k \<and> m ! 2 = Some v \<and> k \<noteq> [] \<and>
            (\<forall>x \<in> set k. in_class False False (lower_letters @ upper_letters) x))"
proof -
  from assms obtain i' n caps where
    le: "i \<le> length s" and
    fm: "first_match False (pattern commentMeta) (drop i s) i = Some (i', n, caps)" and
    m: "m = Some (take n (drop i' s)) # map caps [1..<Suc (length (groups_of (pattern commentMeta)))]"
    and j: "j = i' + n"
    by (auto simp: regexp_exec_def commentMeta_def split: if_splits option.splits)
  from first_match_Some[OF fm] obtain t rest where
    t: "matcher False (pattern commentMeta) t Map.empty (\<lambda>s' caps'. Some (s', caps')) =
          Some (rest, caps)"
      "n = length t - length rest" "i \<le> i'" "i' + length t = i + length (drop i s)"
    by blast
  have g: "groups_of (pattern commentMeta) = [1, 2]"
    by (simp add: commentMeta_pattern lit_def Plus_def dot_def)
  have m12: "m ! 1 = caps 1" "m ! 2 = caps 2"
    using m g by (simp_all add: upt_rec numeral_2_eq_2)
  from commentMeta_matcher[OF t(1)] t(2,3,4) le j m12 show ?thesis by auto
qed

lemma parseMeta_loop_entries:
  assumes "\<forall>key v. results key = Some v \<longrightarrow> meta_entry key v"
  shows "\<exists>r. parseMeta_loop s i results = Some r \<and>
           (\<forall>key v. r key = Some v \<longrightarrow> meta_entry key v)"
  using assms
proof (induction "length s - i" arbitrary: i results rule: less_induct)
  case less
  show ?case
  proof (cases "regexp_exec commentMeta s i")
    case None
    then show ?thesis using less.prems by (subst parseMeta_loop.simps) simp
  next
    case (Some p)
    obtain m j where p: "p = (m, j)" by (cases p)
    from commentMeta_exec[OF Some[unfolded p]] obtain k v where
      ij: "i < j" "j \<le> length s" and
      kv: "m ! 1 = Some k" "m ! 2 = Some v" "k \<noteq> []"
        "\<forall>x \<in> set k. in_class False False (lower_letters @ upper_letters) x"
      by blast
    have e: "meta_entry (toLower k) (trim v)"
      using kv(3,4) trimmed_trim by (simp add: meta_entry_def toLower_def list_all_iff to_lower_letter)
    have d: "length s - j < length s - i" using ij by simp
    have "\<forall>key w. (results(toLower k \<mapsto> trim v)) key = Some w \<longrightarrow> meta_entry key w"
      using less.prems e by auto
    from less.hyps[OF d this] obtain r where
      "parseMeta_loop s j (results(toLower k \<mapsto> trim v)) = Some r"
      "\<forall>key v. r key = Some v \<longrightarrow> meta_entry key v" by blast
    then show ?thesis using Some p kv(1,2)
      by (subst parseMeta_loop.simps) (simp add: to_string_def)
  qed
qed

lemma commentMeta_exec_directive:
  assumes "regexp_exec commentMeta s i = Some (m, j)"
  shows "\<exists>d name v. contains d s \<and> directive d name v \<and> m ! 1 = Some name \<and> m ! 2 = Some v"
proof -
  from assms obtain i' n caps where
    le: "i \<le> length s" and
    fm: "first_match False (pattern commentMeta) (drop i s) i = Some (i', n, caps)" and
    m: "m = Some (take n (drop i' s)) # map caps [1..<Suc (length (groups_of (pattern commentMeta)))]"
    by (auto simp: regexp_exec_def commentMeta_def split: if_splits option.splits)
  from first_match_drop[OF fm] obtain rest where
    t: "matcher False (pattern commentMeta) (drop (i' - i) (drop i s)) Map.empty
          (\<lambda>s' caps'. Some (s', caps')) = Some (rest, caps)" "i \<le> i'"
    by blast
  have g: "groups_of (pattern commentMeta) = [1, 2]"
    by (simp add: commentMeta_pattern lit_def Plus_def dot_def)
  have m12: "m ! 1 = caps 1" "m ! 2 = caps 2"
    using m g by (simp_all add: upt_rec numeral_2_eq_2)
  from commentMeta_directive[OF t(1)] obtain d name v where
    d: "drop (i' - i) (drop i s) = d @ rest" "directive d name v"
      "caps 1 = Some name" "caps 2 = Some v" by blast
  have "drop i' s = d @ rest" using d(1) t(2) by simp
  then have "s = take i' s @ d @ rest" by (metis append_take_drop_id)
  then have "contains d s"
    using contains_append[OF contains_start, of d "take i' s" rest] by simp
  with d m12 show ?thesis by auto
qed

lemma parseMeta_loop_invariant:
  assumes "\<And>i m j. regexp_exec commentMeta s i = Some (m, j) \<Longrightarrow>
             P (toLower (to_string (m ! 1))) (trim (to_string (m ! 2)))"
    and "\<forall>key w. results key = Some w \<longrightarrow> P key w"
  shows "\<forall>r. parseMeta_loop s i results = Some r \<longrightarrow> (\<forall>key w. r key = Some w \<longrightarrow> P key w)"
  using assms(2)
proof (induction "length s - i" arbitrary: i results rule: less_induct)
  case less
  show ?case
  proof (cases "regexp_exec commentMeta s i")
    case None
    then show ?thesis using less.prems by (subst parseMeta_loop.simps) simp
  next
    case (Some p)
    obtain m j where p: "p = (m, j)" by (cases p)
    from commentMeta_exec[OF Some[unfolded p]] have ij: "i < j" "j \<le> length s" by simp_all
    have dd: "length s - j < length s - i" using ij by simp
    let ?results = "results(toLower (to_string (m ! 1)) \<mapsto> trim (to_string (m ! 2)))"
    have "\<forall>key w. ?results key = Some w \<longrightarrow> P key w"
      using less.prems assms(1)[OF Some[unfolded p]] by auto
    from less.hyps[OF dd this] have ih:
      "\<forall>r. parseMeta_loop s j ?results = Some r \<longrightarrow> (\<forall>key w. r key = Some w \<longrightarrow> P key w)" .
    have "parseMeta_loop s i results = parseMeta_loop s j ?results"
      using Some p by (subst parseMeta_loop.simps) simp
    with ih show ?thesis by (simp only:)
  qed
qed

lemma parseMeta_loop_directives:
  assumes "parseMeta_loop s 0 Map.empty = Some r" and "r key = Some w"
  shows "\<exists>d name v. contains d s \<and> directive d name v \<and> key = toLower name \<and> w = trim v"
proof -
  have "\<And>i m j. regexp_exec commentMeta s i = Some (m, j) \<Longrightarrow>
      (\<exists>d name v. contains d s \<and> directive d name v \<and>
         toLower (to_string (m ! 1)) = toLower name \<and> trim (to_string (m ! 2)) = trim v)"
  proof -
    fix i m j
    assume "regexp_exec commentMeta s i = Some (m, j)"
    from commentMeta_exec_directive[OF this] obtain d name v where
      "contains d s" "directive d name v" "m ! 1 = Some name" "m ! 2 = Some v" by blast
    then have "contains d s \<and> directive d name v \<and>
         toLower (to_string (m ! 1)) = toLower name \<and> trim (to_string (m ! 2)) = trim v"
      by (simp add: to_string_def)
    then show "\<exists>d name v. contains d s \<and> directive d name v \<and>
         toLower (to_string (m ! 1)) = toLower name \<and> trim (to_string (m ! 2)) = trim v"
      by blast
  qed
  from parseMeta_loop_invariant[where P = "\<lambda>key w. \<exists>d name v. contains d s \<and> directive d name v \<and>
         key = toLower name \<and> w = trim v" and s = s and results = Map.empty and i = 0, OF this]
    assms
  show ?thesis by simp
qed

subsection \<open>A directive that is alone on its line is recorded\<close>

text \<open>
  A match of a pattern that stays inside a line does not depend on what follows the
  line: the rest of the string is handed on unchanged.
\<close>

lemma map_option_case:
  "(case map_option f X of Some r \<Rightarrow> Some r | None \<Rightarrow> map_option f Y) =
   map_option f (case X of Some r \<Rightarrow> Some r | None \<Rightarrow> Y)"
  by (cases X) simp_all

lemma matcher_line:
  assumes "\<not> ic" and "within_line r" and "w = [] \<or> line_terminator (hd w)"
    and "\<And>s' c'. k' (s' @ w) c' = map_option (\<lambda>(x, c). (x @ w, c)) (k s' c')"
  shows "matcher ic r (s @ w) caps k' = map_option (\<lambda>(x, c). (x @ w, c)) (matcher ic r s caps k)"
  using assms
proof (induction ic r s caps k arbitrary: k' rule: matcher.induct)
  case (1 ic c s caps k)
  show ?case
  proof (cases s)
    case Nil
    with 1 show ?thesis by (cases w) (auto simp: same_char_def)
  next
    case (Cons y ys)
    with 1 show ?thesis by simp
  qed
next
  case (2 ic negated cs s caps k)
  show ?case
  proof (cases s)
    case Nil
    with 2 show ?thesis by (cases w) (auto simp: line_terminator_def)
  next
    case (Cons y ys)
    with 2 show ?thesis by simp
  qed
next
  case (3 ic s caps k)
  then show ?case by simp
next
  case (4 ic a b s caps k)
  from 4(4) have wa: "within_line a" and wb: "within_line b" by simp_all
  have kb: "\<And>s' c'. matcher ic b (s' @ w) c' k' =
      map_option (\<lambda>(x, c). (x @ w, c)) (matcher ic b s' c' k)"
    by (rule 4(1)[OF 4(3) wb 4(5) 4(6)])
  have "matcher ic a (s @ w) caps (\<lambda>s' c'. matcher ic b s' c' k') =
      map_option (\<lambda>(x, c). (x @ w, c)) (matcher ic a s caps (\<lambda>s' c'. matcher ic b s' c' k))"
    by (rule 4(2)[OF 4(3) wa 4(5)]) (rule kb)
  then show ?case by simp
next
  case (5 ic a b s caps k)
  from 5(4) have wa: "within_line a" and wb: "within_line b" by simp_all
  have a: "matcher ic a (s @ w) caps k' = map_option (\<lambda>(x, c). (x @ w, c)) (matcher ic a s caps k)"
    by (rule 5(1)[OF 5(3) wa 5(5) 5(6)])
  show ?case
  proof (cases "matcher ic a s caps k")
    case None
    from 5(2)[OF None 5(3) wb 5(5) 5(6)] a None show ?thesis by simp
  next
    case (Some r)
    with a show ?thesis by (simp split: prod.splits)
  qed
next
  case (6 ic a s caps k)
  from 6(3) have wa: "within_line a" by simp
  let ?K = "\<lambda>s' caps'. if length s' < length s then k s' caps' else None"
  let ?K' = "\<lambda>s' caps'. if length s' < length (s @ w) then k' s' caps' else None"
  have kk: "\<And>s' c'. ?K' (s' @ w) c' = map_option (\<lambda>(x, c). (x @ w, c)) (?K s' c')"
    using 6(5) by simp
  have a: "matcher ic a (s @ w) (reset a caps) ?K' =
      map_option (\<lambda>(x, c). (x @ w, c)) (matcher ic a s (reset a caps) ?K)"
    by (rule 6(1)[OF 6(2) wa 6(4)]) (rule kk)
  show ?case
    by (simp only: matcher.simps(6) a 6(5)[of s caps] map_option_case)
next
  case (7 ic a s caps k)
  from 7(4) have wa: "within_line a" by simp
  let ?K = "\<lambda>s' caps'. if length s' < length s then matcher ic (Star a) s' caps' k else None"
  let ?K' = "\<lambda>s' caps'. if length s' < length (s @ w) then matcher ic (Star a) s' caps' k' else None"
  have kk: "\<And>s' c'. ?K' (s' @ w) c' = map_option (\<lambda>(x, c). (x @ w, c)) (?K s' c')"
  proof -
    fix s' c'
    show "?K' (s' @ w) c' = map_option (\<lambda>(x, c). (x @ w, c)) (?K s' c')"
    proof (cases "length s' < length s")
      case True
      from 7(1)[OF True 7(3) 7(4) 7(5) 7(6)] True show ?thesis by simp
    next
      case False
      then show ?thesis by simp
    qed
  qed
  have a: "matcher ic a (s @ w) (reset a caps) ?K' =
      map_option (\<lambda>(x, c). (x @ w, c)) (matcher ic a s (reset a caps) ?K)"
    by (rule 7(2)[OF 7(3) wa 7(5)]) (rule kk)
  show ?case
    by (subst matcher.simps(7), subst (2) matcher.simps(7))
       (simp only: a 7(6)[of s caps] map_option_case)
next
  case (8 ic n a s caps k)
  from 8(3) have wa: "within_line a" by simp
  let ?K = "\<lambda>s' caps'. k s' (caps'(n \<mapsto> take (length s - length s') s))"
  let ?K' = "\<lambda>s' caps'. k' s' (caps'(n \<mapsto> take (length (s @ w) - length s') (s @ w)))"
  have kk: "\<And>s' c'. ?K' (s' @ w) c' = map_option (\<lambda>(x, c). (x @ w, c)) (?K s' c')"
  proof -
    fix s' c'
    have t: "take (length (s @ w) - length (s' @ w)) (s @ w) = take (length s - length s') s"
      by simp
    show "?K' (s' @ w) c' = map_option (\<lambda>(x, c). (x @ w, c)) (?K s' c')"
      unfolding t by (rule 8(5))
  qed
  have "matcher ic a (s @ w) caps ?K' =
      map_option (\<lambda>(x, c). (x @ w, c)) (matcher ic a s caps ?K)"
    by (rule 8(1)[OF 8(2) wa 8(4)]) (rule kk)
  then show ?case by simp
next
  case (9 ic s caps k)
  then show ?case by simp
qed

lemma within_line_commentMeta: "within_line (pattern commentMeta)"
  by (simp add: commentMeta_def lit_def Plus_def dot_def in_class_def lower_letters_def
      upper_letters_def line_terminator_def)

lemma commentMeta_line:
  assumes "w = [] \<or> line_terminator (hd w)"
  shows "matcher False (pattern commentMeta) (s @ w) Map.empty (\<lambda>s' caps'. Some (s', caps')) =
         map_option (\<lambda>(x, c). (x @ w, c))
           (matcher False (pattern commentMeta) s Map.empty (\<lambda>s' caps'. Some (s', caps')))"
  by (rule matcher_line[OF _ within_line_commentMeta assms]) simp_all

lemma matcher_star_class_greedy:
  "\<forall>x \<in> set u. in_class ic negated cs x \<Longrightarrow>
   matcher ic (Star (Class negated cs)) y caps k = Some r \<Longrightarrow>
   matcher ic (Star (Class negated cs)) (u @ y) caps k = Some r"
  by (induction u) (simp_all add: matcher_star_class_Cons)

lemma matcher_star_class_stop:
  "y = [] \<or> \<not> in_class ic negated cs (hd y) \<Longrightarrow>
   matcher ic (Star (Class negated cs)) y caps k = k y caps"
  by (cases y) (auto simp: matcher_star_class_Nil matcher_star_class_Cons)

lemma not_contains_close:
  "\<not> contains ''-->'' fl \<Longrightarrow> \<not> contains ''-->'' (CHR ''-'' # CHR ''>'' # fl)"
  by simp

lemma directive_value:
  assumes "\<not> list_ex line_terminator v" and "\<not> contains ''-->'' fl"
  shows "matcher False (Group 2 (Star dot)) (v @ ''-->'' @ fl) c
           (\<lambda>s' caps'. matcher False (lit ''-->'') s' caps' (\<lambda>s' caps'. Some (s', caps'))) =
         Some (fl, c(2 \<mapsto> v))"
proof -
  define s4 where "s4 = v @ ''-->'' @ fl"
  define k5 :: "string \<Rightarrow> captures \<Rightarrow> (string \<times> captures) option"
    where "k5 = (\<lambda>s' caps'. matcher False (lit ''-->'') s' caps' (\<lambda>s' caps'. Some (s', caps')))"
  define k2 :: "string \<Rightarrow> captures \<Rightarrow> (string \<times> captures) option"
    where "k2 = (\<lambda>s' caps'. k5 s' (caps'(2 \<mapsto> take (length s4 - length s') s4)))"
  have nc: "\<not> contains ''-->'' (CHR ''-'' # CHR ''>'' # fl)"
    using assms(2) by (rule not_contains_close)
  have "\<And>u rest c. CHR ''-'' # CHR ''>'' # fl = u @ rest \<Longrightarrow> k5 rest c = None"
    unfolding k5_def using nc not_contains_suffix matcher_close_None by metis
  then have "\<And>u rest c. CHR ''-'' # CHR ''>'' # fl = u @ rest \<Longrightarrow> k2 rest c = None"
    unfolding k2_def by blast
  then have deeper: "matcher False (Star (Class True [CHR 0x0A, CHR 0x0D]))
      (CHR ''-'' # CHR ''>'' # fl) c k2 = None"
    using matcher_star_class_None[of "CHR ''-'' # CHR ''>'' # fl" k2] by blast
  have here: "k2 (''-->'' @ fl) c = Some (fl, c(2 \<mapsto> v))"
    by (simp add: k2_def k5_def s4_def lit_def same_char_def)
  have base: "matcher False (Star (Class True [CHR 0x0A, CHR 0x0D])) (''-->'' @ fl) c k2 =
      Some (fl, c(2 \<mapsto> v))"
    using deeper here by (simp add: matcher_star_class_Cons in_class_def)
  have "\<forall>x \<in> set v. in_class False True [CHR 0x0A, CHR 0x0D] x"
    using assms(1) by (auto simp: in_class_def list_ex_iff line_terminator_def)
  from matcher_star_class_greedy[OF this base]
  have "matcher False (Star (Class True [CHR 0x0A, CHR 0x0D])) s4 c k2 = Some (fl, c(2 \<mapsto> v))"
    by (simp add: s4_def)
  then show ?thesis
    by (simp add: dot_def k2_def k5_def s4_def)
qed

lemma directive_name:
  assumes "name \<noteq> []" and "list_all is_letter name"
    and "k (CHR '':'' # rest) (c(1 \<mapsto> name)) = Some r"
  shows "matcher False (Group 1 (Plus (Class False (lower_letters @ upper_letters))))
           (name @ CHR '':'' # rest) c k = Some r"
proof -
  define s2 where "s2 = name @ CHR '':'' # rest"
  define k1 :: "string \<Rightarrow> captures \<Rightarrow> 'a option"
    where "k1 = (\<lambda>s' caps'. k s' (caps'(1 \<mapsto> take (length s2 - length s') s2)))"
  obtain x xs where n: "name = x # xs" using assms(1) by (cases name) auto
  have cls: "\<forall>y \<in> set name. in_class False False (lower_letters @ upper_letters) y"
    using assms(2) by (auto simp: in_class_def is_letter_def list_all_iff)
  have colon: "\<not> in_class False False (lower_letters @ upper_letters) CHR '':''"
    by (simp add: in_class_def lower_letters_def upper_letters_def)
  have stop: "matcher False (Star (Class False (lower_letters @ upper_letters)))
      (CHR '':'' # rest) c k1 = k1 (CHR '':'' # rest) c"
    using colon by (simp add: matcher_star_class_stop)
  have here: "k1 (CHR '':'' # rest) c = k (CHR '':'' # rest) (c(1 \<mapsto> name))"
    by (simp add: k1_def s2_def)
  from stop here assms(3) have "matcher False (Star (Class False (lower_letters @ upper_letters)))
      (CHR '':'' # rest) c k1 = Some r" by simp
  from matcher_star_class_greedy[OF _ this, of xs] cls n
  have "matcher False (Star (Class False (lower_letters @ upper_letters)))
      (xs @ CHR '':'' # rest) c k1 = Some r" by simp
  then show ?thesis using cls n
    by (simp add: Plus_def k1_def s2_def)
qed

lemma directive_match:
  assumes "directive d name v" and "\<not> contains ''-->'' fl"
  shows "matcher False (pattern commentMeta) (d @ fl) Map.empty (\<lambda>s' caps'. Some (s', caps')) =
         Some (fl, [1 \<mapsto> name, 2 \<mapsto> v])"
proof -
  define k5 :: "string \<Rightarrow> captures \<Rightarrow> (string \<times> captures) option"
    where "k5 = (\<lambda>s' caps'. matcher False (lit ''-->'') s' caps' (\<lambda>s' caps'. Some (s', caps')))"
  define k4 :: "string \<Rightarrow> captures \<Rightarrow> (string \<times> captures) option"
    where "k4 = (\<lambda>s' caps'. matcher False (Group 2 (Star dot)) s' caps' k5)"
  define k3 :: "string \<Rightarrow> captures \<Rightarrow> (string \<times> captures) option"
    where "k3 = (\<lambda>s' caps'. matcher False (Lit CHR '':'') s' caps' k4)"
  define k2 :: "string \<Rightarrow> captures \<Rightarrow> (string \<times> captures) option"
    where "k2 = (\<lambda>s' caps'. matcher False
      (Group 1 (Plus (Class False (lower_letters @ upper_letters)))) s' caps' k3)"
  define body where "body = name @ CHR '':'' # v @ ''-->'' @ fl"
  from assms(1) have nm: "name \<noteq> []" "list_all is_letter name"
    and v: "\<not> list_ex line_terminator v"
    and d: "d @ fl = ''<!--'' @ body \<or> d @ fl = ''<!-- '' @ body"
    by (auto simp: directive_def body_def)
  have "k4 (v @ ''-->'' @ fl) [1 \<mapsto> name] = Some (fl, [1 \<mapsto> name, 2 \<mapsto> v])"
    unfolding k4_def k5_def by (rule directive_value[OF v assms(2)])
  then have "k3 (CHR '':'' # v @ ''-->'' @ fl) [1 \<mapsto> name] = Some (fl, [1 \<mapsto> name, 2 \<mapsto> v])"
    by (simp add: k3_def same_char_def)
  then have b: "k2 body Map.empty = Some (fl, [1 \<mapsto> name, 2 \<mapsto> v])"
    unfolding k2_def body_def by (rule directive_name[OF nm])
  obtain x xs where bx: "body = x # xs" and x: "is_letter x"
    using nm by (cases name) (auto simp: body_def)
  have sp: "x \<noteq> CHR '' ''" using x by (auto simp: is_letter_def lower_letters_def upper_letters_def)
  have o1: "matcher False (Opt (Lit CHR '' '')) body Map.empty k2 =
      Some (fl, [1 \<mapsto> name, 2 \<mapsto> v])"
    using b sp by (simp add: bx same_char_def)
  have o2: "matcher False (Opt (Lit CHR '' '')) (CHR '' '' # body) Map.empty k2 =
      Some (fl, [1 \<mapsto> name, 2 \<mapsto> v])"
    using b by (simp add: same_char_def reset_def)
  have top: "\<And>s. matcher False (pattern commentMeta) s Map.empty (\<lambda>s' caps'. Some (s', caps')) =
      matcher False (lit ''<!--'') s Map.empty
        (\<lambda>s' caps'. matcher False (Opt (Lit CHR '' '')) s' caps' k2)"
    by (simp only: commentMeta_pattern matcher.simps(4) k2_def k3_def k4_def k5_def)
  from d show ?thesis
  proof
    assume "d @ fl = ''<!--'' @ body"
    then show ?thesis using o1 by (simp add: top lit_def same_char_def)
  next
    assume "d @ fl = ''<!-- '' @ body"
    then show ?thesis using o2 by (simp add: top lit_def same_char_def)
  qed
qed

lemma commentMeta_no_empty:
  "matcher False (pattern commentMeta) [] Map.empty (\<lambda>s' caps'. Some (s', caps')) = None"
  by (simp add: commentMeta_pattern lit_def)

lemma first_match_append:
  assumes "\<forall>k < length t. matcher ic r (drop k t @ rest) Map.empty (\<lambda>s' caps'. Some (s', caps')) =
             map_option (\<lambda>(x, c). (x @ rest, c))
               (matcher ic r (drop k t) Map.empty (\<lambda>s' caps'. Some (s', caps')))"
    and "matcher ic r [] Map.empty (\<lambda>s' caps'. Some (s', caps')) = None"
  shows "first_match ic r (t @ rest) i =
         (case first_match ic r t i of
            Some x \<Rightarrow> Some x
          | None \<Rightarrow> first_match ic r rest (i + length t))"
  using assms(1)
proof (induction t arbitrary: i)
  case Nil
  have "first_match ic r [] i = None"
    by (subst first_match.simps) (simp add: assms(2))
  then show ?case by simp
next
  case (Cons x xs)
  from Cons.prems have here: "matcher ic r ((x # xs) @ rest) Map.empty (\<lambda>s' caps'. Some (s', caps')) =
             map_option (\<lambda>(y, c). (y @ rest, c))
               (matcher ic r (x # xs) Map.empty (\<lambda>s' caps'. Some (s', caps')))"
    by (metis drop0 length_greater_0_conv list.distinct(1))
  have "\<forall>k < length xs. matcher ic r (drop k xs @ rest) Map.empty (\<lambda>s' caps'. Some (s', caps')) =
             map_option (\<lambda>(x, c). (x @ rest, c))
               (matcher ic r (drop k xs) Map.empty (\<lambda>s' caps'. Some (s', caps')))"
  proof (intro allI impI)
    fix k assume "k < length xs"
    then have "Suc k < length (x # xs)" by simp
    from Cons.prems[rule_format, OF this] show "matcher ic r (drop k xs @ rest) Map.empty (\<lambda>s' caps'. Some (s', caps')) =
             map_option (\<lambda>(x, c). (x @ rest, c))
               (matcher ic r (drop k xs) Map.empty (\<lambda>s' caps'. Some (s', caps')))" by simp
  qed
  from Cons.IH[OF this, of "Suc i"] have ih: "first_match ic r (xs @ rest) (Suc i) =
         (case first_match ic r xs (Suc i) of
            Some x \<Rightarrow> Some x
          | None \<Rightarrow> first_match ic r rest (Suc i + length xs))" .
  have e: "i + length (x # xs) = Suc i + length xs" by simp
  show ?case
  proof (cases "matcher ic r (x # xs) Map.empty (\<lambda>s' caps'. Some (s', caps'))")
    case None
    with here have n: "matcher ic r (x # xs @ rest) Map.empty (\<lambda>s' caps'. Some (s', caps')) = None"
      by simp
    have "first_match ic r (x # xs @ rest) i = first_match ic r (xs @ rest) (Suc i)"
      by (subst first_match.simps) (simp add: n)
    moreover have "first_match ic r (x # xs) i = first_match ic r xs (Suc i)"
      by (subst first_match.simps) (simp add: None)
    ultimately show ?thesis using ih by (simp split: option.split)
  next
    case (Some p)
    obtain y c where p: "p = (y, c)" by (cases p)
    from here Some p have s: "matcher ic r (x # xs @ rest) Map.empty (\<lambda>s' caps'. Some (s', caps')) =
        Some (y @ rest, c)" by simp
    have "first_match ic r (x # xs @ rest) i = Some (i, length (x # xs @ rest) - length (y @ rest), c)"
      by (subst first_match.simps) (simp add: s)
    moreover have "first_match ic r (x # xs) i = Some (i, length (x # xs) - length y, c)"
      by (subst first_match.simps) (simp add: Some p)
    ultimately show ?thesis by simp
  qed
qed

lemma first_match_shift:
  "first_match ic r s (a + i) = map_option (\<lambda>(j, n, c). (a + j, n, c)) (first_match ic r s i)"
proof (induction s arbitrary: i)
  case Nil
  show ?case
    by (subst first_match.simps, subst (2) first_match.simps) (simp split: option.splits)
next
  case (Cons x xs)
  from Cons[of "Suc i"] show ?case
    by (subst first_match.simps, subst (2) first_match.simps) (simp split: option.splits)
qed

lemma next_entry_first_match:
  "next_entry s i =
     (if length s < i then None
      else map_option (\<lambda>(j, n, caps). (toLower (to_string (caps 1)), trim (to_string (caps 2)), j + n))
             (first_match False (pattern commentMeta) (drop i s) i))"
proof -
  have g: "groups_of (pattern commentMeta) = [1, 2]"
    by (simp add: commentMeta_pattern lit_def Plus_def dot_def)
  have ic: "ignoreCase commentMeta = False" by (simp add: commentMeta_def)
  show ?thesis
    by (simp add: next_entry_def regexp_exec_def g ic upt_rec numeral_2_eq_2
        split: option.splits)
qed

lemma parseMeta_loop_next:
  "parseMeta_loop s i r =
     (case next_entry s i of
        None \<Rightarrow> Some r
      | Some (k, v, j) \<Rightarrow> parseMeta_loop s j (r(k \<mapsto> v)))"
  by (subst parseMeta_loop.simps) (simp add: next_entry_def split: option.splits)

lemma next_entry_progress:
  assumes "next_entry s i = Some (k, v, j)"
  shows "i < j \<and> j \<le> length s"
proof -
  from assms obtain m where "regexp_exec commentMeta s i = Some (m, j)"
    by (auto simp: next_entry_def)
  from commentMeta_exec[OF this] show ?thesis by simp
qed

lemma next_entry_shift:
  "next_entry (pre @ s) (length pre + i) =
     map_option (\<lambda>(k, v, j). (k, v, length pre + j)) (next_entry s i)"
  by (simp add: next_entry_first_match first_match_shift option.map_comp comp_def
      split_def add.assoc)

lemma opens_opening:
  assumes "sp = [] \<or> sp = '' ''" and "name \<noteq> []" and "list_all is_letter name"
  shows "opens (''<!--'' @ sp @ name @ CHR '':'' # x)"
proof -
  obtain c cs where n: "name = c # cs" using assms(2) by (cases name) auto
  have c: "c \<noteq> CHR '' ''" using assms(3) n
    by (auto simp: is_letter_def lower_letters_def upper_letters_def)
  have colon: "\<not> is_letter CHR '':''"
    by (simp add: is_letter_def lower_letters_def upper_letters_def)
  have all: "\<And>y. y \<in> set name \<Longrightarrow> is_letter y" using assms(3) by (simp add: list_all_iff)
  have tw: "takeWhile is_letter (name @ CHR '':'' # x) = name"
    using takeWhile_append2[of name is_letter "CHR '':'' # x"] all colon by simp
  have dw: "dropWhile is_letter (name @ CHR '':'' # x) = CHR '':'' # x"
    using dropWhile_append2[of name is_letter "CHR '':'' # x"] all colon by simp
  from assms(1) show ?thesis
  proof
    assume "sp = []"
    then show ?thesis using tw dw assms(2) c n by (simp add: opens_def Let_def)
  next
    assume "sp = '' ''"
    then show ?thesis using tw dw assms(2) by (simp add: opens_def Let_def)
  qed
qed

lemma opens_directive:
  assumes "directive d name v"
  shows "opens (d @ x)"
proof -
  from assms have n: "name \<noteq> []" "list_all is_letter name"
    and d: "d = ''<!--'' @ [] @ name @ CHR '':'' # v @ ''-->'' \<or>
            d = ''<!--'' @ '' '' @ name @ CHR '':'' # v @ ''-->''"
    by (auto simp: directive_def)
  from d show ?thesis
  proof
    assume "d = ''<!--'' @ [] @ name @ CHR '':'' # v @ ''-->''"
    then have "d @ x = ''<!--'' @ [] @ name @ CHR '':'' # (v @ ''-->'' @ x)" by simp
    then show ?thesis using opens_opening[OF _ n, of "[]"] by simp
  next
    assume "d = ''<!--'' @ '' '' @ name @ CHR '':'' # v @ ''-->''"
    then have "d @ x = ''<!--'' @ '' '' @ name @ CHR '':'' # (v @ ''-->'' @ x)" by simp
    then show ?thesis using opens_opening[OF _ n, of "'' ''"] by simp
  qed
qed

lemma opening_inside:
  assumes "u \<noteq> []" and "c \<notin> set o2" and "u @ c # z = a # o2 @ w"
  shows "\<exists>x. u = a # o2 @ x"
proof -
  have len: "length o2 < length u"
  proof (rule ccontr)
    assume "\<not> length o2 < length u"
    then have le: "length u \<le> length o2" by simp
    have "(u @ c # z) ! length u = c" by simp
    moreover have "(a # o2 @ w) ! length u = o2 ! (length u - 1)"
      using assms(1) le by (cases u) (simp_all add: nth_append)
    moreover have "length u - 1 < length o2" using assms(1) le by (cases u) simp_all
    ultimately have "c \<in> set o2" using assms(3) by (metis nth_mem)
    with assms(2) show False by simp
  qed
  from assms(3) have "take (Suc (length o2)) (u @ c # z) = take (Suc (length o2)) (a # o2 @ w)"
    by simp
  with len have "take (Suc (length o2)) u = a # o2" by simp
  then have "u = (a # o2) @ drop (Suc (length o2)) u" by (metis append_take_drop_id)
  then show ?thesis by auto
qed

lemma letter_not_open: "is_letter x \<Longrightarrow> x \<noteq> CHR ''<''"
  by (auto simp: is_letter_def lower_letters_def upper_letters_def)

lemma commentMeta_opens:
  assumes "matcher False (pattern commentMeta) (u @ rest) Map.empty (\<lambda>s' caps'. Some (s', caps')) =
           Some p"
    and "u \<noteq> []" and "rest = [] \<or> hd rest = CHR ''<''"
  shows "opens u"
proof -
  obtain rest' c where "p = (rest', c)" by (cases p)
  with commentMeta_directive[of "u @ rest" rest' c] assms(1) obtain d name v where
    s: "u @ rest = d @ rest'" and d: "directive d name v" by blast
  from d have n: "name \<noteq> []" "list_all is_letter name"
    and "d = ''<!--'' @ [] @ name @ CHR '':'' # v @ ''-->'' \<or>
         d = ''<!--'' @ '' '' @ name @ CHR '':'' # v @ ''-->''"
    by (auto simp: directive_def)
  then obtain sp where sp: "sp = [] \<or> sp = '' ''"
    and dd: "d = ''<!--'' @ sp @ name @ CHR '':'' # v @ ''-->''"
    by blast
  define o2 where "o2 = ''!--'' @ sp @ name @ '':''"
  have nl: "CHR ''<'' \<notin> set name"
  proof
    assume "CHR ''<'' \<in> set name"
    with n(2) have "is_letter CHR ''<''" by (simp add: list_all_iff)
    with letter_not_open show False by blast
  qed
  from sp have lt: "CHR ''<'' \<notin> set o2"
  proof
    assume "sp = []"
    with nl show ?thesis by (simp add: o2_def)
  next
    assume "sp = '' ''"
    with nl show ?thesis by (simp add: o2_def)
  qed
  have e: "d @ rest' = CHR ''<'' # o2 @ (v @ ''-->'' @ rest')" by (simp add: dd o2_def)
  have "\<exists>x. u = CHR ''<'' # o2 @ x"
  proof (cases rest)
    case Nil
    with s e have "u = CHR ''<'' # o2 @ (v @ ''-->'' @ rest')" by simp
    then show ?thesis by blast
  next
    case (Cons r rs)
    with assms(3) have "r = CHR ''<''" by simp
    with s e Cons have "u @ CHR ''<'' # rs = CHR ''<'' # o2 @ (v @ ''-->'' @ rest')" by simp
    from opening_inside[OF assms(2) lt this] show ?thesis .
  qed
  then obtain x where "u = CHR ''<'' # o2 @ x" by blast
  then have "u = ''<!--'' @ sp @ name @ CHR '':'' # x" by (simp add: o2_def)
  then show ?thesis using opens_opening[OF sp n] by simp
qed

lemma last_line_suffix:
  assumes "\<not> list_ex line_terminator (drop k pre)"
  shows "\<exists>w. last_line pre = w @ drop k pre"
proof -
  let ?P = "\<lambda>c. \<not> line_terminator c"
  have all: "\<And>c. c \<in> set (rev (drop k pre)) \<Longrightarrow> ?P c"
    using assms by (auto simp: list_ex_iff)
  have "rev pre = rev (drop k pre) @ rev (take k pre)"
    by (metis append_take_drop_id rev_append)
  then have "takeWhile ?P (rev pre) = rev (drop k pre) @ takeWhile ?P (rev (take k pre))"
    using takeWhile_append2[of "rev (drop k pre)" ?P "rev (take k pre)"] all by simp
  then have "last_line pre = rev (takeWhile ?P (rev (take k pre))) @ drop k pre"
    by (simp add: last_line_def)
  then show ?thesis by blast
qed

lemma commentMeta_before:
  assumes "\<not> opens_within (last_line pre)" and "k < length pre" and "rest = ''<!--'' @ y"
  shows "matcher False (pattern commentMeta) (drop k pre @ rest) Map.empty
           (\<lambda>s' caps'. Some (s', caps')) =
         map_option (\<lambda>(x, c). (x @ rest, c))
           (matcher False (pattern commentMeta) (drop k pre) Map.empty
              (\<lambda>s' caps'. Some (s', caps')))"
proof (cases "list_ex line_terminator (drop k pre)")
  case True
  let ?P = "\<lambda>c. \<not> line_terminator c"
  define u where "u = drop k pre"
  define a where "a = takeWhile ?P u"
  define b where "b = dropWhile ?P u"
  have u: "u = a @ b" by (simp add: a_def b_def)
  from True have "b \<noteq> []" by (auto simp: b_def u_def list_ex_iff)
  then have hb: "line_terminator (hd b)" using hd_dropWhile[of ?P u] by (simp add: b_def)
  have w1: "b = [] \<or> line_terminator (hd b)" using hb by simp
  have w2: "b @ rest = [] \<or> line_terminator (hd (b @ rest))"
    using hb \<open>b \<noteq> []\<close> by simp
  from commentMeta_line[OF w1, of a] commentMeta_line[OF w2, of a]
  show ?thesis
    by (simp add: u_def[symmetric] u option.map_comp comp_def split_def)
next
  case False
  from last_line_suffix[OF False] obtain w where w: "last_line pre = w @ drop k pre" by blast
  have ne: "drop k pre \<noteq> []" using assms(2) by simp
  have "length w \<in> set [0..<length (last_line pre)]" using w ne by simp
  with assms(1) have "\<not> opens (drop (length w) (last_line pre))"
    unfolding opens_within_def list_ex_iff by blast
  then have no: "\<not> opens (drop k pre)" by (simp add: w)
  have n1: "matcher False (pattern commentMeta) (drop k pre) Map.empty
      (\<lambda>s' caps'. Some (s', caps')) = None"
  proof (rule ccontr)
    assume "matcher False (pattern commentMeta) (drop k pre) Map.empty
      (\<lambda>s' caps'. Some (s', caps')) \<noteq> None"
    then obtain p where "matcher False (pattern commentMeta) (drop k pre @ []) Map.empty
      (\<lambda>s' caps'. Some (s', caps')) = Some p" by auto
    from commentMeta_opens[OF this ne] no show False by simp
  qed
  have n2: "matcher False (pattern commentMeta) (drop k pre @ rest) Map.empty
      (\<lambda>s' caps'. Some (s', caps')) = None"
  proof (rule ccontr)
    assume "matcher False (pattern commentMeta) (drop k pre @ rest) Map.empty
      (\<lambda>s' caps'. Some (s', caps')) \<noteq> None"
    then obtain p where "matcher False (pattern commentMeta) (drop k pre @ rest) Map.empty
      (\<lambda>s' caps'. Some (s', caps')) = Some p" by auto
    moreover have "rest = [] \<or> hd rest = CHR ''<''" by (simp add: assms(3))
    ultimately have "opens (drop k pre)" using commentMeta_opens[OF _ ne] by blast
    with no show False by simp
  qed
  show ?thesis by (simp only: n1 n2 option.map)
qed

lemma next_entry_prefix:
  assumes "\<not> opens_within (last_line pre)" and "i \<le> length pre" and "rest = ''<!--'' @ y"
  shows "next_entry (pre @ rest) i =
         (case next_entry pre i of
            Some e \<Rightarrow> Some e
          | None \<Rightarrow> next_entry (pre @ rest) (length pre))"
proof -
  have "\<forall>k < length (drop i pre).
      matcher False (pattern commentMeta) (drop k (drop i pre) @ rest) Map.empty
        (\<lambda>s' caps'. Some (s', caps')) =
      map_option (\<lambda>(x, c). (x @ rest, c))
        (matcher False (pattern commentMeta) (drop k (drop i pre)) Map.empty
           (\<lambda>s' caps'. Some (s', caps')))"
  proof (intro allI impI)
    fix k assume "k < length (drop i pre)"
    then have "k + i < length pre" by simp
    from commentMeta_before[OF assms(1) this assms(3)]
    show "matcher False (pattern commentMeta) (drop k (drop i pre) @ rest) Map.empty
        (\<lambda>s' caps'. Some (s', caps')) =
      map_option (\<lambda>(x, c). (x @ rest, c))
        (matcher False (pattern commentMeta) (drop k (drop i pre)) Map.empty
           (\<lambda>s' caps'. Some (s', caps')))" by simp
  qed
  moreover have e: "i + length (drop i pre) = length pre" using assms(2) by simp
  ultimately have fm: "first_match False (pattern commentMeta) (drop i pre @ rest) i =
      (case first_match False (pattern commentMeta) (drop i pre) i of
         Some x \<Rightarrow> Some x
       | None \<Rightarrow> first_match False (pattern commentMeta) rest (length pre))"
    using first_match_append[of "drop i pre" False "pattern commentMeta" rest i,
        OF _ commentMeta_no_empty, unfolded e] by blast
  show ?thesis
    using assms(2)
    by (simp add: next_entry_first_match fm split: option.splits)
qed

lemma next_entry_directive:
  assumes "directive d name v" and "\<not> contains ''-->'' (first_line post)"
  shows "next_entry (d @ post) 0 = Some (toLower name, trim v, length d)"
proof -
  let ?P = "\<lambda>c. \<not> line_terminator c"
  define fl where "fl = first_line post"
  define w where "w = dropWhile ?P post"
  have post: "post = fl @ w" by (simp add: fl_def w_def first_line_def)
  have w: "w = [] \<or> line_terminator (hd w)"
    using hd_dropWhile[of ?P post] by (auto simp: w_def)
  have nc: "\<not> contains ''-->'' fl" using assms(2) by (simp add: fl_def)
  from commentMeta_line[OF w, of "d @ fl"] directive_match[OF assms(1) nc]
  have m: "matcher False (pattern commentMeta) (d @ post) Map.empty (\<lambda>s' caps'. Some (s', caps')) =
      Some (post, [1 \<mapsto> name, 2 \<mapsto> v])"
    by (simp add: post)
  have "first_match False (pattern commentMeta) (d @ post) 0 =
      Some (0, length d, [1 \<mapsto> name, 2 \<mapsto> v])"
    by (subst first_match.simps) (simp add: m)
  then show ?thesis
    by (simp add: next_entry_first_match to_string_def)
qed

lemma parseMeta_loop_total: "\<exists>m. parseMeta_loop s i r = Some m"
proof (induction "length s - i" arbitrary: i r rule: less_induct)
  case less
  show ?case
  proof (cases "next_entry s i")
    case None
    then show ?thesis by (subst parseMeta_loop_next) simp
  next
    case (Some e)
    obtain k v j where e: "e = (k, v, j)" by (cases e)
    from next_entry_progress[OF Some[unfolded e]] have "length s - j < length s - i" by arith
    from less[OF this, of "r(k \<mapsto> v)"] show ?thesis
      by (subst parseMeta_loop_next) (simp add: Some e)
  qed
qed

lemma parseMeta_loop_shift:
  "parseMeta_loop (pre @ s) (length pre + i) r = parseMeta_loop s i r"
proof (induction "length s - i" arbitrary: i r rule: less_induct)
  case less
  show ?case
  proof (cases "next_entry s i")
    case None
    then show ?thesis
      by (subst parseMeta_loop_next, subst (2) parseMeta_loop_next)
         (simp add: next_entry_shift)
  next
    case (Some e)
    obtain k v j where e: "e = (k, v, j)" by (cases e)
    from next_entry_progress[OF Some[unfolded e]] have "length s - j < length s - i" by arith
    from less[OF this, of "r(k \<mapsto> v)"] show ?thesis
      by (subst parseMeta_loop_next, subst (2) parseMeta_loop_next)
         (simp add: next_entry_shift Some e)
  qed
qed

lemma parseMeta_loop_prefix:
  assumes "\<not> opens_within (last_line pre)" and "rest = ''<!--'' @ y"
  shows "i \<le> length pre \<Longrightarrow> parseMeta_loop pre i r = Some m \<Longrightarrow>
         parseMeta_loop (pre @ rest) i r = parseMeta_loop (pre @ rest) (length pre) m"
proof (induction "length pre - i" arbitrary: i r rule: less_induct)
  case less
  note ne = next_entry_prefix[OF assms(1) less.prems(1) assms(2)]
  show ?case
  proof (cases "next_entry pre i")
    case None
    from less.prems(2) None have "m = r" by (subst (asm) parseMeta_loop_next) simp
    moreover have "parseMeta_loop (pre @ rest) i r = parseMeta_loop (pre @ rest) (length pre) r"
      by (subst parseMeta_loop_next, subst (2) parseMeta_loop_next) (simp add: ne None)
    ultimately show ?thesis by simp
  next
    case (Some e)
    obtain k v j where e: "e = (k, v, j)" by (cases e)
    from next_entry_progress[OF Some[unfolded e]] have j: "i < j" "j \<le> length pre" by simp_all
    then have d: "length pre - j < length pre - i" by simp
    from less.prems(2) Some e have "parseMeta_loop pre j (r(k \<mapsto> v)) = Some m"
      by (subst (asm) parseMeta_loop_next) simp
    from less.hyps[OF d j(2) this]
    have "parseMeta_loop (pre @ rest) j (r(k \<mapsto> v)) = parseMeta_loop (pre @ rest) (length pre) m" .
    moreover have "parseMeta_loop (pre @ rest) i r = parseMeta_loop (pre @ rest) j (r(k \<mapsto> v))"
      by (subst parseMeta_loop_next) (simp add: ne Some e)
    ultimately show ?thesis by simp
  qed
qed

lemma parseMeta_loop_add:
  "parseMeta_loop s i r = Some m \<Longrightarrow> parseMeta_loop s i (r0 ++ r) = Some (r0 ++ m)"
proof (induction "length s - i" arbitrary: i r rule: less_induct)
  case less
  show ?case
  proof (cases "next_entry s i")
    case None
    with less.prems have "m = r" by (subst (asm) parseMeta_loop_next) simp
    then show ?thesis using None by (subst parseMeta_loop_next) simp
  next
    case (Some e)
    obtain k v j where e: "e = (k, v, j)" by (cases e)
    from next_entry_progress[OF Some[unfolded e]] have d: "length s - j < length s - i" by arith
    from less.prems Some e have "parseMeta_loop s j (r(k \<mapsto> v)) = Some m"
      by (subst (asm) parseMeta_loop_next) simp
    from less.hyps[OF d this] have "parseMeta_loop s j (r0 ++ r(k \<mapsto> v)) = Some (r0 ++ m)" .
    then show ?thesis using Some e by (subst parseMeta_loop_next) simp
  qed
qed

lemma parseMeta_directive:
  assumes "directive d name v" and "\<not> opens_within (last_line pre)"
    and "\<not> contains ''-->'' (first_line post)"
  shows "\<exists>earlier later. parseMeta pre = Some earlier \<and> parseMeta post = Some later \<and>
           parseMeta (pre @ d @ post) = Some (earlier ++ [toLower name \<mapsto> trim v] ++ later)"
proof -
  obtain earlier where b: "parseMeta_loop pre 0 Map.empty = Some earlier"
    using parseMeta_loop_total by blast
  obtain later where a: "parseMeta_loop post 0 Map.empty = Some later"
    using parseMeta_loop_total by blast
  define entry where "entry = earlier(toLower name \<mapsto> trim v)"
  define rest where "rest = d @ post"
  from assms(1) have "d = ''<!--'' @ name @ '':'' @ v @ ''-->'' \<or>
      d = ''<!--'' @ '' '' @ name @ '':'' @ v @ ''-->''"
    by (simp add: directive_def)
  then obtain z where "d = ''<!--'' @ z" by blast
  then have y: "rest = ''<!--'' @ (z @ post)" by (simp add: rest_def)
  have 1: "parseMeta_loop (pre @ rest) 0 Map.empty = parseMeta_loop (pre @ rest) (length pre) earlier"
    by (rule parseMeta_loop_prefix[OF assms(2) y _ b]) simp
  have ne: "next_entry rest 0 = Some (toLower name, trim v, length d)"
    unfolding rest_def by (rule next_entry_directive[OF assms(1,3)])
  have "next_entry (pre @ rest) (length pre + 0) =
      map_option (\<lambda>(k, v, j). (k, v, length pre + j)) (next_entry rest 0)"
    by (rule next_entry_shift)
  then have n2: "next_entry (pre @ rest) (length pre) =
      Some (toLower name, trim v, length pre + length d)"
    by (simp add: ne)
  have 2: "parseMeta_loop (pre @ rest) (length pre) earlier =
      parseMeta_loop (pre @ rest) (length pre + length d) entry"
    by (subst parseMeta_loop_next) (simp add: n2 entry_def)
  have "parseMeta_loop ((pre @ d) @ post) (length (pre @ d) + 0) entry =
      parseMeta_loop post 0 entry"
    by (rule parseMeta_loop_shift)
  then have 3: "parseMeta_loop (pre @ rest) (length pre + length d) entry =
      parseMeta_loop post 0 entry"
    by (simp add: rest_def)
  have "parseMeta_loop post 0 (entry ++ Map.empty) = Some (entry ++ later)"
    by (rule parseMeta_loop_add[OF a])
  then have 4: "parseMeta_loop post 0 entry = Some (entry ++ later)" by simp
  have 5: "entry ++ later = earlier ++ [toLower name \<mapsto> trim v] ++ later"
    by (simp add: entry_def)
  have "parseMeta_loop (pre @ rest) 0 Map.empty =
      Some (earlier ++ [toLower name \<mapsto> trim v] ++ later)"
    by (simp only: 1 2 3 4 5)
  then have "parseMeta (pre @ d @ post) = Some (earlier ++ [toLower name \<mapsto> trim v] ++ later)"
    by (simp only: parseMeta_def rest_def)
  with a b show ?thesis by (simp only: parseMeta_def) blast
qed

text \<open>
  C9, as the code has it. \<^verbatim>\<open>parseMeta\<close> returns for every input. Every entry of the result
  comes from a comment directive that occurs in the input: the key is the name of the
  directive in lower case, a non-empty string of lower-case letters, and the value is
  the value of the directive without the white space at its ends. Conversely, a
  directive is recorded when no directive opens before it on its line and no \<^verbatim>\<open>-->\<close>
  comes after it on its line: the result is the mapping of the text before the
  directive, then the entry of the directive, then the mapping of the text after it, a
  later entry replacing an earlier one of the same key. So an input that contains
  \<^verbatim>\<open><!-- title: Hello World -->\<close> in this way maps \<^verbatim>\<open>title\<close> to \<^verbatim>\<open>Hello World\<close>, unless a directive
  of that name in the text after it replaces the value.
\<close>

theorem parseMeta_entries:
  "(\<exists>results. parseMeta contents = Some results \<and>
      (\<forall>key w. results key = Some w \<longrightarrow>
         meta_entry key w \<and>
         (\<exists>d name v. contains d contents \<and> directive d name v \<and>
            key = toLower name \<and> w = trim v))) \<and>
   (directive d name v \<longrightarrow> \<not> opens_within (last_line pre) \<longrightarrow>
    \<not> contains ''-->'' (first_line post) \<longrightarrow>
      (\<exists>earlier later. parseMeta pre = Some earlier \<and> parseMeta post = Some later \<and>
         parseMeta (pre @ d @ post) = Some (earlier ++ [toLower name \<mapsto> trim v] ++ later))) \<and>
   (\<not> opens_within (last_line pre) \<longrightarrow> \<not> contains ''-->'' (first_line post) \<longrightarrow>
      (\<exists>later results. parseMeta post = Some later \<and>
         parseMeta (pre @ ''<!-- title: Hello World -->'' @ post) = Some results \<and>
         results ''title'' =
           (case later ''title'' of None \<Rightarrow> Some ''Hello World'' | Some w \<Rightarrow> Some w)))"
proof (intro conjI impI)
  have "\<exists>results. parseMeta contents = Some results \<and>
      (\<forall>key v. results key = Some v \<longrightarrow> meta_entry key v)"
    unfolding parseMeta_def by (rule parseMeta_loop_entries) simp
  then obtain results where r: "parseMeta contents = Some results"
    "\<forall>key v. results key = Some v \<longrightarrow> meta_entry key v" by blast
  have "\<forall>key w. results key = Some w \<longrightarrow>
         (\<exists>d name v. contains d contents \<and> directive d name v \<and>
            key = toLower name \<and> w = trim v)"
    using parseMeta_loop_directives[OF r(1)[unfolded parseMeta_def]] by blast
  with r show "\<exists>results. parseMeta contents = Some results \<and>
      (\<forall>key w. results key = Some w \<longrightarrow>
         meta_entry key w \<and>
         (\<exists>d name v. contains d contents \<and> directive d name v \<and>
            key = toLower name \<and> w = trim v))" by blast
next
  assume "directive d name v" "\<not> opens_within (last_line pre)"
    "\<not> contains ''-->'' (first_line post)"
  then show "\<exists>earlier later. parseMeta pre = Some earlier \<and> parseMeta post = Some later \<and>
         parseMeta (pre @ d @ post) = Some (earlier ++ [toLower name \<mapsto> trim v] ++ later)"
    by (rule parseMeta_directive)
next
  assume h: "\<not> opens_within (last_line pre)" "\<not> contains ''-->'' (first_line post)"
  have t: "directive ''<!-- title: Hello World -->'' ''title'' '' Hello World ''"
    by (simp add: directive_def is_letter_def lower_letters_def upper_letters_def
        line_terminator_def)
  have l: "toLower ''title'' = ''title''" "trim '' Hello World '' = ''Hello World''"
    by (simp_all add: toLower_def to_lower_def upper_letters_def lower_letters_def trim_def
        is_space_def)
  from parseMeta_directive[OF t h] obtain earlier later where
    p: "parseMeta post = Some later"
       "parseMeta (pre @ ''<!-- title: Hello World -->'' @ post) =
          Some (earlier ++ [toLower ''title'' \<mapsto> trim '' Hello World ''] ++ later)"
    by blast
  have "(earlier ++ [toLower ''title'' \<mapsto> trim '' Hello World ''] ++ later) ''title'' =
      (case later ''title'' of None \<Rightarrow> Some ''Hello World'' | Some w \<Rightarrow> Some w)"
    unfolding l by (simp add: map_add_def split: option.splits)
  with p show "\<exists>later results. parseMeta post = Some later \<and>
         parseMeta (pre @ ''<!-- title: Hello World -->'' @ post) = Some results \<and>
         results ''title'' =
           (case later ''title'' of None \<Rightarrow> Some ''Hello World'' | Some w \<Rightarrow> Some w)"
    by blast
qed

theorem parseMeta_entries_witness:
  "directive ''<!-- title: Hello World -->'' ''title'' '' Hello World '' \<and>
   \<not> opens_within (last_line ''<!-- draft --> '') \<and>
   \<not> contains ''-->'' (first_line (CHR 0x0A # ''<!-- subtitle: Hi -->'')) \<and>
   parseMeta ''<!-- draft --> '' = Some Map.empty \<and>
   parseMeta (CHR 0x0A # ''<!-- subtitle: Hi -->'') = Some [''subtitle'' \<mapsto> ''Hi''] \<and>
   parseMeta (''<!-- draft --> '' @ ''<!-- title: Hello World -->'' @
       CHR 0x0A # ''<!-- subtitle: Hi -->'') =
     Some [''title'' \<mapsto> ''Hello World'', ''subtitle'' \<mapsto> ''Hi''] \<and>
   meta_entry ''title'' ''Hello World'' \<and>
   (\<exists>d name v.
      contains d (''<!-- draft --> '' @ ''<!-- title: Hello World -->'' @
        CHR 0x0A # ''<!-- subtitle: Hi -->'') \<and>
      directive d name v \<and> ''title'' = toLower name \<and> ''Hello World'' = trim v)"
proof -
  define pre where "pre = ''<!-- draft --> ''"
  define post where "post = CHR 0x0A # ''<!-- subtitle: Hi -->''"
  define d where "d = ''<!-- title: Hello World -->''"
  note inst = parseMeta_entries[of "pre @ d @ post" d "''title''" "'' Hello World ''" pre post]
  have h1: "directive d ''title'' '' Hello World ''"
    by (simp add: d_def directive_def is_letter_def lower_letters_def upper_letters_def
        line_terminator_def)
  have h2: "\<not> opens_within (last_line pre)"
    by (simp add: pre_def last_line_def line_terminator_def opens_within_def opens_def upt_rec
        Let_def is_letter_def lower_letters_def upper_letters_def)
  have h3: "\<not> contains ''-->'' (first_line post)"
    by (simp add: post_def first_line_def line_terminator_def)
  have e1: "parseMeta pre = Some Map.empty"
    by (simp add: pre_def parseMeta_def parseMeta_loop.simps commentMeta_def regex_eval)
  have e2: "parseMeta post = Some [''subtitle'' \<mapsto> ''Hi'']"
    by (simp add: post_def parseMeta_def parseMeta_loop.simps commentMeta_def regex_eval
        toLower_def trim_def is_space_def to_string_def)
  have l: "toLower ''title'' = ''title''" "trim '' Hello World '' = ''Hello World''"
    by (simp_all add: toLower_def to_lower_def upper_letters_def lower_letters_def trim_def
        is_space_def)
  from inst h1 h2 h3 obtain earlier later where
    "parseMeta pre = Some earlier" "parseMeta post = Some later"
    "parseMeta (pre @ d @ post) = Some (earlier ++ [toLower ''title'' \<mapsto> trim '' Hello World ''] ++ later)"
    by blast
  with e1 e2 have w: "parseMeta (pre @ d @ post) =
      Some (Map.empty ++ [''title'' \<mapsto> ''Hello World''] ++ [''subtitle'' \<mapsto> ''Hi''])"
    by (simp add: l)
  have m: "Map.empty ++ [''title'' \<mapsto> ''Hello World''] ++ [''subtitle'' \<mapsto> ''Hi''] =
      [''title'' \<mapsto> ''Hello World'', ''subtitle'' \<mapsto> ''Hi'']" by simp
  from inst obtain results where
    r: "parseMeta (pre @ d @ post) = Some results"
       "\<forall>key w. results key = Some w \<longrightarrow>
         meta_entry key w \<and>
         (\<exists>d' name v. contains d' (pre @ d @ post) \<and> directive d' name v \<and>
            key = toLower name \<and> w = trim v)" by blast
  from r(1) w m have "results = [''title'' \<mapsto> ''Hello World'', ''subtitle'' \<mapsto> ''Hi'']"
    by simp
  then have "results ''title'' = Some ''Hello World''" by simp
  with r(2) have s: "meta_entry ''title'' ''Hello World'' \<and>
         (\<exists>d' name v. contains d' (pre @ d @ post) \<and> directive d' name v \<and>
            ''title'' = toLower name \<and> ''Hello World'' = trim v)" by blast
  from h1 h2 h3 e1 e2 w[unfolded m] s show ?thesis
    unfolding pre_def post_def d_def by blast
qed

text \<open>
  C9, as the claim states it, fails. The input contains the directive
  \<^verbatim>\<open><!-- title: Hello World -->\<close> each time: followed on its line by a second directive,
  it gives one entry whose value runs to the end of the second directive, and no entry
  for the second key; preceded on its line by the opening of another directive, it is
  part of the value of that one; followed by a later directive of the same name, it
  loses its value to the later one.
\<close>

theorem parseMeta_title_counterexample:
  "parseMeta ''<!-- title: Hello World --> <!-- subtitle: Hi -->'' =
     Some [''title'' \<mapsto> ''Hello World --> <!-- subtitle: Hi''] \<and>
   parseMeta ''<!-- note: <!-- title: Hello World -->'' =
     Some [''note'' \<mapsto> ''<!-- title: Hello World''] \<and>
   parseMeta (''<!-- title: Hello World -->'' @ CHR 0x0A # ''<!-- Title: Other -->'') =
     Some [''title'' \<mapsto> ''Other'']"
  by (simp add: parseMeta_def parseMeta_loop.simps commentMeta_def regex_eval
      toLower_def trim_def is_space_def to_string_def)

subsection \<open>The embed of a video link\<close>

text \<open>
  C7. For a link with the address \<^verbatim>\<open>https://youtu.be/abc123\<close> the pattern of the youtube
  rule matches \<^verbatim>\<open>youtu.be/abc123\<close> and captures \<^verbatim>\<open>abc123\<close>, which is the last non-empty
  string of the match; put in the place of \<^verbatim>\<open>{0}\<close> in the template, it gives the markup
  with the source \<^verbatim>\<open>https://www.youtube.com/embed/abc123?rel=0\<close>, and a link of class
  \<^verbatim>\<open>youtube\<close> with that address is replaced by what the parser reads from this markup.
\<close>

theorem youtube_embed:
  \<open>string_match ''https://youtu.be/abc123'' (the (regexp youtube)) =
     Some [Some ''youtu.be/abc123'', Some ''abc123''] \<and>
   last_string [Some ''youtu.be/abc123'', Some ''abc123''] = Some ''abc123'' \<and>
   processedLink youtube (Some ''https://youtu.be/abc123'') =
     Inr ''<iframe width="640" height="360" src="https://www.youtube.com/embed/abc123?rel=0" frameborder="0" allowfullscreen></iframe>'' \<and>
   embed parse youtube
     (Element ''a'' [(''class'', ''youtube''), (''href'', ''https://youtu.be/abc123'')]
        [Text ''clip'']) =
     Inr (parse ''<iframe width="640" height="360" src="https://www.youtube.com/embed/abc123?rel=0" frameborder="0" allowfullscreen></iframe>'')\<close>
proof -
  have m: "string_match ''https://youtu.be/abc123'' (the (regexp youtube)) =
     Some [Some ''youtu.be/abc123'', Some ''abc123'']"
    by (simp add: youtube_def string_match_def regex_eval)
  have l: "last_string [Some ''youtu.be/abc123'', Some ''abc123''] = Some ''abc123''"
    by (simp add: last_string_def)
  have r: "regexp youtube = Some (the (regexp youtube))" by (simp add: youtube_def)
  have \<open>string_replace (output_markup youtube) ''{0}'' ''abc123'' =
     ''<iframe width="640" height="360" src="https://www.youtube.com/embed/abc123?rel=0" frameborder="0" allowfullscreen></iframe>''\<close>
    by (simp add: youtube_def string_replace_def)
  then have p: \<open>processedLink youtube (Some ''https://youtu.be/abc123'') =
     Inr ''<iframe width="640" height="360" src="https://www.youtube.com/embed/abc123?rel=0" frameborder="0" allowfullscreen></iframe>''\<close>
    unfolding processedLink_def by (subst r) (simp add: m l to_string_def)
  have s: "selected (selector youtube)
     (Element ''a'' [(''class'', ''youtube''), (''href'', ''https://youtu.be/abc123'')]
        [Text ''clip''])"
    by (simp add: youtube_def selected_def is_tag_def hasClass_def attr_def class_names_def
        is_space_def)
  have \<open>embed parse youtube
     (Element ''a'' [(''class'', ''youtube''), (''href'', ''https://youtu.be/abc123'')]
        [Text ''clip'']) =
     Inr (parse ''<iframe width="640" height="360" src="https://www.youtube.com/embed/abc123?rel=0" frameborder="0" allowfullscreen></iframe>'')\<close>
    using s p by simp
  with m l p show ?thesis by simp
qed

section \<open>Properties of the transformations\<close>

subsection \<open>Section enclosure wraps its containers again at every pass\<close>

lemma count_tags_simps [simp]:
  "count_tags x [] = 0"
  "count_tags x (n # ns) = count_tag x n + count_tags x ns"
  "count_tags x (ms @ ns) = count_tags x ms + count_tags x ns"
  by (simp_all add: count_tags_def)

lemma count_tag_Element [simp]:
  "count_tag x (Element t at kids) = (if t = x then 1 else 0) + count_tags x kids"
  by (simp add: count_tags_def)

declare count_tag.simps(1) [simp del]






























lemma count_set_attr [simp]: "count_tag x (set_attr name v n) = count_tag x n"
  by (cases n) (simp_all add: set_attr_def)

lemma count_removeAttr [simp]: "count_tag x (removeAttr name n) = count_tag x n"
  by (cases n) (simp_all add: removeAttr_def)

lemma count_addClass [simp]: "count_tag x (addClass v n) = count_tag x n"
  by (simp add: addClass_def split: option.splits)

lemma count_removeClass [simp]: "count_tag x (removeClass name n) = count_tag x n"
  by (simp add: removeClass_def Let_def split: option.splits)



lemma count_map_first_element:
  "(\<And>n. count_tags x (f n) = count_tag x n) \<Longrightarrow>
   count_tags x (map_first_element f ns) = count_tags x ns"
  by (induction ns) auto

lemma count_tags_rev [simp]: "count_tags x (rev ns) = count_tags x ns"
  by (induction ns) auto

lemma count_map_last_element:
  "(\<And>n. count_tags x (f n) = count_tag x n) \<Longrightarrow>
   count_tags x (map_last_element f ns) = count_tags x ns"
  unfolding map_last_element_def
  using count_map_first_element[of x "\<lambda>n. rev (f n)" "rev ns"] by simp

lemma count_blockquote_class [simp]: "count_tag x (blockquote_class n) = count_tag x n"
proof (cases n)
  case (Element t at kids)
  have "\<And>y. count_tags y (map_last_element (\<lambda>c. [removeAttr ''class'' c]) kids) = count_tags y kids"
    by (rule count_map_last_element) simp
  then show ?thesis using Element
    by (simp add: blockquote_class_def is_tag_def split: option.splits)
qed (simp_all add: blockquote_class_def is_tag_def)

lemma count_map:
  "(\<And>n. n \<in> set ns \<Longrightarrow> count_tag x (f n) = count_tag x n) \<Longrightarrow>
   count_tags x (map f ns) = count_tags x ns"
  by (induction ns) auto

lemma count_align_center [simp]: "count_tag x (align_center n) = count_tag x n"
proof (induction n rule: align_center.induct)
  case (1 t at kids)
  have "\<And>k. k \<in> set kids \<Longrightarrow> count_tag x (align_center k) = count_tag x k"
    using 1 by (cases "centered (Element t at kids)") auto
  then have "count_tags x (map align_center kids) = count_tags x kids" by (rule count_map)
  then show ?case by (simp add: Let_def)
qed simp_all








subsection \<open>A video link without an address\<close>

text \<open>
  C5. The transformation does not complete for every input: for a paragraph holding a
  link of class \<^verbatim>\<open>youtube\<close> without an \<^verbatim>\<open>href\<close> attribute, \<^verbatim>\<open>attr('href')\<close> is \<^verbatim>\<open>undefined\<close>
  and the call of \<^verbatim>\<open>match\<close> on it throws a \<^verbatim>\<open>TypeError\<close>, whatever the parser.
\<close>

theorem parseContent_link_without_href:
  "parseContent parse
     [Element ''p'' [] [Element ''a'' [(''class'', ''youtube'')] [Text ''clip'']]] =
   Inl TypeError"
  by (simp add: parseContent_def is_element_def first_paragraph_def is_tag_def
      blockquote_class_def header_link_def section_enclosure_def videoRules_def
      youtube_def selected_def hasClass_def attr_def class_names_def is_space_def
      processedLink_def)

end
